theory Spec2Isabelle
  imports Main "HOL-Library.Multiset"
begin

section \<open>The binary-heap priority queue of algojs-dsa\<close>

text \<open>
  A shallow embedding of the class \<^verbatim>\<open>PriorityQueue<T>\<close>. The object is a record of its
  two private fields; every method takes the object and returns its result together with
  the object after the call. Numbers are integers (no NaN, no infinities): a comparator
  returns an \<open>int\<close>, and \<^verbatim>\<open>undefined\<close> as a result is \<open>None\<close>. Array indices that the source
  keeps non-negative are naturals; the two places where \<open>-1\<close> can arise (\<^verbatim>\<open>indexOf\<close> and
  \<^verbatim>\<open>getParentIndex\<close>) are over \<open>int\<close>.
\<close>

subsection \<open>Data model\<close>

type_synonym 'a Comparator = "'a \<Rightarrow> 'a \<Rightarrow> int"

datatype HeapType = MinHeap | MaxHeap

record 'a PriorityQueueOptions =
  comparator :: "'a Comparator option"
  heapType :: "HeapType option"
  initialValues :: "'a list option"

record 'a PriorityQueue =
  heap :: "'a list"
  compare :: "'a Comparator"

subsection \<open>Index arithmetic and swap\<close>

definition getParentIndex :: "int \<Rightarrow> int" where
  "getParentIndex index = (index - 1) div 2"

definition getLeftChildIndex :: "nat \<Rightarrow> nat" where
  "getLeftChildIndex index = 2 * index + 1"

definition getRightChildIndex :: "nat \<Rightarrow> nat" where
  "getRightChildIndex index = 2 * index + 2"

text \<open>
  The destructuring assignment reads both slots first and then writes them. The source
  calls it with indices inside the array only.
\<close>

definition swap :: "'a list \<Rightarrow> nat \<Rightarrow> nat \<Rightarrow> 'a list" where
  "swap h i j = (let a = h ! j; b = h ! i in (h[i := a])[j := b])"

subsection \<open>The two corrective passes\<close>

function bubbleUp :: "'a Comparator \<Rightarrow> 'a list \<Rightarrow> nat \<Rightarrow> 'a list" where
  "bubbleUp cmp h index =
     (if index > 0 then
        (let parentIdx = nat (getParentIndex (int index)) in
           if cmp (h ! index) (h ! parentIdx) < 0
           then bubbleUp cmp (swap h index parentIdx) parentIdx
           else h)
      else h)"
  by pat_completeness auto
termination
  by (relation "measure (\<lambda>(cmp, h, index). index)") (auto simp: getParentIndex_def)

declare bubbleUp.simps [simp del]

text \<open>
  The body of the loop of \<^verbatim>\<open>bubbleDown\<close> up to its test \<^verbatim>\<open>targetIdx === index\<close>: the
  slot to swap with. A child is only read when its index is inside the array.
\<close>

definition bubbleDown_target :: "'a Comparator \<Rightarrow> 'a list \<Rightarrow> nat \<Rightarrow> nat" where
  "bubbleDown_target cmp h index =
     (let len = length h;
          leftIdx = getLeftChildIndex index;
          rightIdx = getRightChildIndex index;
          targetIdx = index;
          targetIdx = (if leftIdx < len \<and> cmp (h ! leftIdx) (h ! targetIdx) < 0
                       then leftIdx else targetIdx);
          targetIdx = (if rightIdx < len \<and> cmp (h ! rightIdx) (h ! targetIdx) < 0
                       then rightIdx else targetIdx)
      in targetIdx)"

lemma bubbleDown_target_cases:
  "bubbleDown_target cmp h i = i \<or>
   (bubbleDown_target cmp h i < length h \<and>
    (bubbleDown_target cmp h i = 2 * i + 1 \<or> bubbleDown_target cmp h i = 2 * i + 2))"
  by (simp add: bubbleDown_target_def getLeftChildIndex_def getRightChildIndex_def Let_def)

lemma length_swap [simp]: "length (swap h i j) = length h"
  by (simp add: swap_def Let_def)

function bubbleDown :: "'a Comparator \<Rightarrow> 'a list \<Rightarrow> nat \<Rightarrow> 'a list" where
  "bubbleDown cmp h index =
     (let targetIdx = bubbleDown_target cmp h index in
        if targetIdx = index then h
        else bubbleDown cmp (swap h index targetIdx) targetIdx)"
  by pat_completeness auto
termination
proof (relation "measure (\<lambda>(cmp, h, index). length h - index)")
  show "wf (measure (\<lambda>(cmp, h, index). length h - index))" by simp
next
  fix cmp :: "'a Comparator" and h :: "'a list" and index t :: nat
  assume t: "t = bubbleDown_target cmp h index" and ne: "t \<noteq> index"
  from bubbleDown_target_cases[of cmp h index] t ne
  have "t < length h" and "index < t" by auto
  then show "((cmp, swap h index t, t), (cmp, h, index))
               \<in> measure (\<lambda>(cmp, h, index). length h - index)"
    by (simp add: diff_less_mono2)
qed

declare bubbleDown.simps [simp del]

subsection \<open>Heapify\<close>

function heapify_loop :: "'a Comparator \<Rightarrow> 'a list \<Rightarrow> int \<Rightarrow> 'a list" where
  "heapify_loop cmp h i =
     (if i \<ge> 0 then heapify_loop cmp (bubbleDown cmp h (nat i)) (i - 1) else h)"
  by pat_completeness auto
termination
  by (relation "measure (\<lambda>(cmp, h, i). nat (i + 1))") auto

declare heapify_loop.simps [simp del]

definition heapify :: "'a Comparator \<Rightarrow> 'a list \<Rightarrow> 'a list" where
  "heapify cmp h = heapify_loop cmp h (int (length h) div 2 - 1)"

subsection \<open>Array built-ins used by the class\<close>

fun indexOf_from :: "'a list \<Rightarrow> 'a \<Rightarrow> int \<Rightarrow> int" where
  "indexOf_from [] v k = -1"
| "indexOf_from (x # xs) v k = (if x = v then k else indexOf_from xs v (k + 1))"

definition indexOf :: "'a list \<Rightarrow> 'a \<Rightarrow> int" where
  "indexOf h v = indexOf_from h v 0"

fun array_includes :: "'a list \<Rightarrow> 'a \<Rightarrow> bool" where
  "array_includes [] v = False"
| "array_includes (x # xs) v = (x = v \<or> array_includes xs v)"

subsection \<open>Construction and the public methods\<close>

text \<open>
  Without a comparator the source subtracts the two elements after the cast
  \<^verbatim>\<open>(a as any) - (b as any)\<close>. The first parameter of the constructor is that subtraction
  at the element type; on numbers it is \<open>(-)\<close>.
\<close>

definition PriorityQueue_new ::
  "('a \<Rightarrow> 'a \<Rightarrow> int) \<Rightarrow> 'a PriorityQueueOptions \<Rightarrow> 'a PriorityQueue" where
  "PriorityQueue_new minus_any options =
     (let type = (case heapType options of None \<Rightarrow> MinHeap | Some t \<Rightarrow> t);
          cmp = (case comparator options of
                   Some c \<Rightarrow> c
                 | None \<Rightarrow> (if type = MinHeap then (\<lambda>a b. minus_any a b)
                             else (\<lambda>a b. minus_any b a)))
      in case initialValues options of
           None \<Rightarrow> \<lparr>heap = [], compare = cmp\<rparr>
         | Some vs \<Rightarrow>
             if length vs > 0 then \<lparr>heap = heapify cmp vs, compare = cmp\<rparr>
             else \<lparr>heap = [], compare = cmp\<rparr>)"

definition size_pq :: "'a PriorityQueue \<Rightarrow> nat" where
  "size_pq q = length (heap q)"

definition isEmpty :: "'a PriorityQueue \<Rightarrow> bool" where
  "isEmpty q = (length (heap q) = 0)"

definition push :: "'a PriorityQueue \<Rightarrow> 'a \<Rightarrow> nat \<times> 'a PriorityQueue" where
  "push q v =
     (let h1 = heap q @ [v];
          h2 = bubbleUp (compare q) h1 (length h1 - 1)
      in (length h2, q\<lparr>heap := h2\<rparr>))"

text \<open>
  \<^verbatim>\<open>pop\<close>: under the two guards the array has at least two slots, so the built-in
  \<^verbatim>\<open>Array.pop\<close> yields its last slot and leaves the rest.
\<close>

definition pop :: "'a PriorityQueue \<Rightarrow> 'a option \<times> 'a PriorityQueue" where
  "pop q =
     (if isEmpty q then (None, q)
      else if length (heap q) = 1 then (Some (last (heap q)), q\<lparr>heap := butlast (heap q)\<rparr>)
      else
        (let top = heap q ! 0;
             moved = last (heap q);
             h1 = (butlast (heap q))[0 := moved]
         in (Some top, q\<lparr>heap := bubbleDown (compare q) h1 0\<rparr>)))"

text \<open>Reading slot 0 of an empty array gives \<^verbatim>\<open>undefined\<close>.\<close>

definition peek :: "'a PriorityQueue \<Rightarrow> 'a option" where
  "peek q = (if 0 < length (heap q) then Some (heap q ! 0) else None)"

definition clear :: "'a PriorityQueue \<Rightarrow> 'a PriorityQueue" where
  "clear q = q\<lparr>heap := []\<rparr>"

definition toArray :: "'a PriorityQueue \<Rightarrow> 'a list" where
  "toArray q = heap q"

definition contains :: "'a PriorityQueue \<Rightarrow> 'a \<Rightarrow> bool" where
  "contains q v = array_includes (heap q) v"

definition replace :: "'a PriorityQueue \<Rightarrow> 'a \<Rightarrow> 'a option \<times> 'a PriorityQueue" where
  "replace q v =
     (if isEmpty q then (None, snd (push q v))
      else
        (let top = heap q ! 0;
             h1 = (heap q)[0 := v]
         in (Some top, q\<lparr>heap := bubbleDown (compare q) h1 0\<rparr>)))"

text \<open>
  \<^verbatim>\<open>pushPop\<close> returns what \<^verbatim>\<open>replace\<close> returns; the non-null assertion of the source
  does nothing at run time, so the result type stays optional here.
\<close>

definition pushPop :: "'a PriorityQueue \<Rightarrow> 'a \<Rightarrow> 'a option \<times> 'a PriorityQueue" where
  "pushPop q v =
     (if isEmpty q then (Some v, q)
      else if compare q v (heap q ! 0) < 0 then (Some v, q)
      else replace q v)"

definition remove :: "'a PriorityQueue \<Rightarrow> 'a \<Rightarrow> bool \<times> 'a PriorityQueue" where
  "remove q v =
     (let index = indexOf (heap q) v in
        if index = -1 then (False, q)
        else if index = int (length (heap q)) - 1
        then (True, q\<lparr>heap := butlast (heap q)\<rparr>)
        else
          (let h1 = (butlast (heap q))[nat index := last (heap q)];
               parentIdx = getParentIndex index
           in if parentIdx \<ge> 0 \<and> compare q (h1 ! nat index) (h1 ! nat parentIdx) < 0
              then (True, q\<lparr>heap := bubbleUp (compare q) h1 (nat index)\<rparr>)
              else (True, q\<lparr>heap := bubbleDown (compare q) h1 (nat index)\<rparr>)))"

lemma length_bubbleDown [simp]: "length (bubbleDown cmp h i) = length h"
proof (induction cmp h i rule: bubbleDown.induct)
  case (1 cmp h index)
  show ?case
  proof (cases "bubbleDown_target cmp h index = index")
    case True
    then show ?thesis by (subst bubbleDown.simps) simp
  next
    case False
    with "1" show ?thesis by (subst bubbleDown.simps) (simp add: Let_def)
  qed
qed

lemma length_pop: "heap q \<noteq> [] \<Longrightarrow> length (heap (snd (pop q))) = length (heap q) - 1"
  by (simp add: pop_def isEmpty_def Let_def)

text \<open>
  \<^verbatim>\<open>toSortedArray\<close> keeps a copy of the array, pops until the array is empty and puts
  the copy back. The loop pops from a non-empty heap, where \<^verbatim>\<open>pop\<close> yields a value.
\<close>

function toSortedArray_loop ::
  "'a PriorityQueue \<Rightarrow> 'a list \<Rightarrow> 'a list \<times> 'a PriorityQueue" where
  "toSortedArray_loop q sorted' =
     (if length (heap q) > 0
      then toSortedArray_loop (snd (pop q)) (sorted' @ [the (fst (pop q))])
      else (sorted', q))"
  by pat_completeness auto
termination
  by (relation "measure (\<lambda>(q, sorted'). length (heap q))") (auto simp: length_pop)

declare toSortedArray_loop.simps [simp del]

definition toSortedArray :: "'a PriorityQueue \<Rightarrow> 'a list \<times> 'a PriorityQueue" where
  "toSortedArray q =
     (let tempHeap = heap q;
          r = toSortedArray_loop q []
      in (fst r, (snd r)\<lparr>heap := tempHeap\<rparr>))"

text \<open>Popping until the heap is empty, as the tests drain a queue.\<close>

definition drain :: "'a PriorityQueue \<Rightarrow> 'a list" where
  "drain q = fst (toSortedArray_loop q [])"

text \<open>Pushing a sequence of values, one \<^verbatim>\<open>push\<close> per value, in order.\<close>

fun push_all :: "'a PriorityQueue \<Rightarrow> 'a list \<Rightarrow> 'a PriorityQueue" where
  "push_all q [] = q"
| "push_all q (v # vs) = push_all (snd (push q v)) vs"

subsection \<open>Enumeration and merge\<close>

text \<open>
  The generator does nothing when it is created: its body starts when the first element
  is asked for. Only then it reads \<^verbatim>\<open>this.heap\<close> and walks that array object with the
  built-in array iterator, which holds a position and, at every step, compares it with
  the length the array has at that moment; nothing is copied. Once the end is reached the
  generator is finished for good. So an iterator is in one of four states:
  \<^item> \<open>Fresh\<close>: created, not started;
  \<^item> \<open>Live i\<close>: at position \<open>i\<close> of the array object the queue holds;
  \<^item> \<open>Detached a i\<close>: at position \<open>i\<close> of an array object the queue holds no more, whose
    content \<open>a\<close> nothing writes any longer;
  \<^item> \<open>Finished\<close>.
\<close>

datatype 'a Iterator = Fresh | Live nat | Detached "'a list" nat | Finished

definition iterator :: "'a PriorityQueue \<Rightarrow> 'a Iterator" where
  "iterator q = Fresh"

fun iterator_next :: "'a PriorityQueue \<Rightarrow> 'a Iterator \<Rightarrow> 'a option \<times> 'a Iterator" where
  "iterator_next q Fresh =
     (if 0 < length (heap q) then (Some (heap q ! 0), Live 1) else (None, Finished))"
| "iterator_next q (Live i) =
     (if i < length (heap q) then (Some (heap q ! i), Live (i + 1)) else (None, Finished))"
| "iterator_next q (Detached a i) =
     (if i < length a then (Some (a ! i), Detached a (i + 1)) else (None, Finished))"
| "iterator_next q Finished = (None, Finished)"

text \<open>Running an iterator to its end over a queue that is not changed meanwhile.\<close>

function iterate :: "'a PriorityQueue \<Rightarrow> 'a Iterator \<Rightarrow> 'a list" where
  "iterate q it =
     (case iterator_next q it of
        (Some item, it') \<Rightarrow> item # iterate q it'
      | (None, it') \<Rightarrow> [])"
  by pat_completeness auto
termination
  by (relation "measure (\<lambda>(q, it). case it of
          Fresh \<Rightarrow> Suc (length (heap q))
        | Live i \<Rightarrow> length (heap q) - i
        | Detached a i \<Rightarrow> length a - i
        | Finished \<Rightarrow> 0)")
     (auto split: Iterator.splits if_splits)

declare iterate.simps [simp del]

text \<open>
  \<^verbatim>\<open>merge\<close> on two distinct objects: the loop pushes onto this array what the iterator
  of the other queue yields, and the other queue is never written.
\<close>

function merge_loop ::
  "'a PriorityQueue \<Rightarrow> 'a PriorityQueue \<Rightarrow> 'a Iterator \<Rightarrow> 'a PriorityQueue" where
  "merge_loop this other it =
     (case iterator_next other it of
        (Some v, it') \<Rightarrow> merge_loop (this\<lparr>heap := heap this @ [v]\<rparr>) other it'
      | (None, it') \<Rightarrow> this)"
  by pat_completeness auto
termination
  by (relation "measure (\<lambda>(this, other, it). case it of
          Fresh \<Rightarrow> Suc (length (heap other))
        | Live i \<Rightarrow> length (heap other) - i
        | Detached a i \<Rightarrow> length a - i
        | Finished \<Rightarrow> 0)")
     (auto split: Iterator.splits if_splits)

declare merge_loop.simps [simp del]

definition merge :: "'a PriorityQueue \<Rightarrow> 'a PriorityQueue \<Rightarrow> 'a PriorityQueue \<times> 'a PriorityQueue" where
  "merge this other =
     (let this1 = merge_loop this other (iterator other)
      in (this1\<lparr>heap := heapify (compare this1) (heap this1)\<rparr>, other))"

text \<open>
  \<^verbatim>\<open>q.merge(q)\<close>, one object in both roles: every push lengthens the array the iterator
  walks, so the loop may not end; \<open>None\<close> is the call that does not return.
\<close>

partial_function (option) merge_self_loop ::
  "'a PriorityQueue \<Rightarrow> 'a Iterator \<Rightarrow> 'a PriorityQueue option" where
  "merge_self_loop this it =
     (case iterator_next this it of
        (Some v, it') \<Rightarrow> merge_self_loop (this\<lparr>heap := heap this @ [v]\<rparr>) it'
      | (None, it') \<Rightarrow> Some this)"

definition merge_self :: "'a PriorityQueue \<Rightarrow> 'a PriorityQueue option" where
  "merge_self this =
     (case merge_self_loop this (iterator this) of
        None \<Rightarrow> None
      | Some this1 \<Rightarrow> Some (this1\<lparr>heap := heapify (compare this1) (heap this1)\<rparr>))"

text \<open>
  A call of a public mutating method while an iterator of the queue exists. Every method
  writes the array object in place, so a live iterator stays on it, with two exceptions.
  \<^verbatim>\<open>clear\<close> assigns a new empty array and leaves the old object as it is.
  \<^verbatim>\<open>toSortedArray\<close> pops the old object until it is empty and then assigns the copy, a
  new object. After either, a live iterator is on the old object. An iterator that has not
  started holds no array yet, and a detached or finished one is out of reach of the queue.
\<close>

datatype 'a Call =
    CallPush 'a
  | CallPop
  | CallRemove 'a
  | CallReplace 'a
  | CallPushPop 'a
  | CallMerge "'a PriorityQueue"
  | CallClear
  | CallToSortedArray

fun perform :: "'a Call \<Rightarrow> 'a PriorityQueue \<times> 'a Iterator \<Rightarrow> 'a PriorityQueue \<times> 'a Iterator" where
  "perform (CallPush v) (q, it) = (snd (push q v), it)"
| "perform CallPop (q, it) = (snd (pop q), it)"
| "perform (CallRemove v) (q, it) = (snd (remove q v), it)"
| "perform (CallReplace v) (q, it) = (snd (replace q v), it)"
| "perform (CallPushPop v) (q, it) = (snd (pushPop q v), it)"
| "perform (CallMerge other) (q, it) = (fst (merge q other), it)"
| "perform CallClear (q, it) =
     (clear q, case it of Live i \<Rightarrow> Detached (heap q) i | _ \<Rightarrow> it)"
| "perform CallToSortedArray (q, it) =
     (snd (toSortedArray q),
      case it of Live i \<Rightarrow> Detached (heap (snd (toSortedArray_loop q []))) i | _ \<Rightarrow> it)"

fun perform_all ::
  "'a Call list \<Rightarrow> 'a PriorityQueue \<times> 'a Iterator \<Rightarrow> 'a PriorityQueue \<times> 'a Iterator" where
  "perform_all [] s = s"
| "perform_all (c # cs) s = perform_all cs (perform c s)"

subsection \<open>The heap property and the comparator contract\<close>

text \<open>
  The comparator contract of the source (negative, zero, positive as \<open>a\<close> is before, equal
  to, after \<open>b\<close>): the sign flips when the arguments are exchanged, and "not after" is
  transitive.
\<close>

definition consistent_comparator :: "'a Comparator \<Rightarrow> bool" where
  "consistent_comparator cmp \<longleftrightarrow>
     (\<forall>a b. cmp a b < 0 \<longleftrightarrow> 0 < cmp b a) \<and>
     (\<forall>a b c. cmp a b \<le> 0 \<longrightarrow> cmp b c \<le> 0 \<longrightarrow> cmp a c \<le> 0)"

definition heap_property :: "'a Comparator \<Rightarrow> 'a list \<Rightarrow> bool" where
  "heap_property cmp h \<longleftrightarrow>
     (\<forall>i \<in> {0..<length h}. \<forall>c \<in> {2 * i + 1, 2 * i + 2}.
        c < length h \<longrightarrow> cmp (h ! i) (h ! c) \<le> 0)"

text \<open>The states of a queue that calls of the public interface can produce.\<close>

inductive reachable :: "'a PriorityQueue \<Rightarrow> bool" where
  r_new: "reachable (PriorityQueue_new minus_any options)"
| r_push: "reachable q \<Longrightarrow> reachable (snd (push q v))"
| r_pop: "reachable q \<Longrightarrow> reachable (snd (pop q))"
| r_remove: "reachable q \<Longrightarrow> reachable (snd (remove q v))"
| r_replace: "reachable q \<Longrightarrow> reachable (snd (replace q v))"
| r_pushPop: "reachable q \<Longrightarrow> reachable (snd (pushPop q v))"
| r_merge: "reachable q \<Longrightarrow> reachable other \<Longrightarrow> reachable (fst (merge q other))"
| r_merge_other: "reachable q \<Longrightarrow> reachable other \<Longrightarrow> reachable (snd (merge q other))"
| r_merge_self: "reachable q \<Longrightarrow> merge_self q = Some q' \<Longrightarrow> reachable q'"
| r_clear: "reachable q \<Longrightarrow> reachable (clear q)"
| r_toSortedArray: "reachable q \<Longrightarrow> reachable (snd (toSortedArray q))"

section \<open>Verification\<close>

subsection \<open>Consequences of the comparator contract\<close>


lemma cmp_sign: "consistent_comparator cmp \<Longrightarrow> cmp a b < 0 \<longleftrightarrow> 0 < cmp b a"
  unfolding consistent_comparator_def by blast

lemma cmp_flip: 
  assumes "consistent_comparator cmp" and "\<not> cmp a b < 0" shows "cmp b a \<le> 0"
proof -
  from assms have "\<not> 0 < cmp b a" using cmp_sign[of cmp a b] by blast
  then show ?thesis by linarith
qed

lemma cmp_trans: "consistent_comparator cmp \<Longrightarrow> cmp a b \<le> 0 \<Longrightarrow> cmp b c \<le> 0 \<Longrightarrow> cmp a c \<le> 0"
  unfolding consistent_comparator_def by blast

lemma cmp_asym:
  assumes "consistent_comparator cmp" and "cmp a b \<le> 0" shows "\<not> cmp b a < 0"
proof
  assume "cmp b a < 0"
  then have "0 < cmp a b" using cmp_sign[OF assms(1), of b a] by blast
  with assms(2) show False by linarith
qed

lemma cmp_refl: assumes "consistent_comparator cmp" shows "cmp a a \<le> 0"
proof (rule ccontr)
  assume "\<not> cmp a a \<le> 0"
  then have "0 < cmp a a" by linarith
  then have "cmp a a < 0" using cmp_sign[OF assms, of a a] by blast
  with \<open>0 < cmp a a\<close> show False by linarith
qed

definition parent :: "nat \<Rightarrow> nat" where
  "parent c = (c - 1) div 2"

lemma parent_eq_iff: "0 < c \<Longrightarrow> parent c = p \<longleftrightarrow> c = 2 * p + 1 \<or> c = 2 * p + 2"
  unfolding parent_def by presburger

lemma parent_less: "0 < c \<Longrightarrow> parent c < c"
  unfolding parent_def by presburger

lemma nat_getParentIndex: "0 < i \<Longrightarrow> nat (getParentIndex (int i)) = parent i"
  unfolding parent_def getParentIndex_def by (simp add: nat_div_distrib nat_diff_distrib')

definition ordered_from :: "'a Comparator \<Rightarrow> 'a list \<Rightarrow> nat \<Rightarrow> bool" where
  "ordered_from cmp h k \<longleftrightarrow>
     (\<forall>c. 0 < c \<and> c < length h \<and> k \<le> parent c \<longrightarrow> cmp (h ! parent c) (h ! c) \<le> 0)"

lemma ordered_fromI:
  "(\<And>c. 0 < c \<Longrightarrow> c < length h \<Longrightarrow> k \<le> parent c \<Longrightarrow> cmp (h ! parent c) (h ! c) \<le> 0)
   \<Longrightarrow> ordered_from cmp h k"
  unfolding ordered_from_def by blast

lemma ordered_fromD:
  "ordered_from cmp h k \<Longrightarrow> 0 < c \<Longrightarrow> c < length h \<Longrightarrow> k \<le> parent c
   \<Longrightarrow> cmp (h ! parent c) (h ! c) \<le> 0"
  unfolding ordered_from_def by blast

lemma heap_property_iff: "heap_property cmp h \<longleftrightarrow> ordered_from cmp h 0"
proof
  assume hp: "heap_property cmp h"
  show "ordered_from cmp h 0"
  proof (rule ordered_fromI)
    fix c assume c: "0 < c" "c < length h"
    then have 1: "c \<in> {2 * parent c + 1, 2 * parent c + 2}"
      using parent_eq_iff[of c "parent c"] by simp
    have 2: "parent c \<in> {0..<length h}" using c parent_less[of c] by simp
    from hp have "\<forall>c' \<in> {2 * parent c + 1, 2 * parent c + 2}.
        c' < length h \<longrightarrow> cmp (h ! parent c) (h ! c') \<le> 0"
      unfolding heap_property_def using 2 by (rule bspec)
    from bspec[OF this 1] c show "cmp (h ! parent c) (h ! c) \<le> 0" by simp
  qed
next
  assume o: "ordered_from cmp h 0"
  show "heap_property cmp h"
    unfolding heap_property_def
  proof (intro ballI impI)
    fix i c assume "i \<in> {0..<length h}" and c: "c \<in> {2 * i + 1, 2 * i + 2}" and cl: "c < length h"
    from c have c0: "0 < c" by auto
    from c c0 have "parent c = i" using parent_eq_iff[of c i] by auto
    moreover from o c0 cl have "cmp (h ! parent c) (h ! c) \<le> 0"
      by (simp add: ordered_fromD)
    ultimately show "cmp (h ! i) (h ! c) \<le> 0" by simp
  qed
qed

lemma swap_nth_fst: "i < length h \<Longrightarrow> j < length h \<Longrightarrow> swap h i j ! i = h ! j"
  by (cases "i = j") (simp_all add: swap_def Let_def)

lemma swap_nth_snd: "j < length h \<Longrightarrow> swap h i j ! j = h ! i"
  by (simp add: swap_def Let_def)

lemma swap_nth_other: "k \<noteq> i \<Longrightarrow> k \<noteq> j \<Longrightarrow> swap h i j ! k = h ! k"
  by (simp add: swap_def Let_def)

lemma mset_swap_heap: "i < length h \<Longrightarrow> j < length h \<Longrightarrow> mset (swap h i j) = mset h"
  by (simp add: swap_def Let_def mset_swap)

definition sift_down_inv :: "'a Comparator \<Rightarrow> 'a list \<Rightarrow> nat \<Rightarrow> nat \<Rightarrow> bool" where
  "sift_down_inv cmp h k i \<longleftrightarrow>
     (\<forall>c. 0 < c \<and> c < length h \<and> k \<le> parent c \<and> parent c \<noteq> i
          \<longrightarrow> cmp (h ! parent c) (h ! c) \<le> 0) \<and>
     (0 < i \<and> k \<le> parent i \<longrightarrow>
        (\<forall>c. 0 < c \<and> c < length h \<and> parent c = i \<longrightarrow> cmp (h ! parent i) (h ! c) \<le> 0))"

lemma target_stay:
  assumes ok: "consistent_comparator cmp"
    and t: "bubbleDown_target cmp h i = i"
    and c: "0 < c" "c < length h" "parent c = i"
  shows "cmp (h ! i) (h ! c) \<le> 0"
proof -
  from c have cc: "c = 2 * i + 1 \<or> c = 2 * i + 2" using parent_eq_iff[of c i] by simp
  have l: "2 * i + 1 < length h \<Longrightarrow> \<not> cmp (h ! (2 * i + 1)) (h ! i) < 0"
    using t unfolding bubbleDown_target_def getLeftChildIndex_def getRightChildIndex_def Let_def
    by (auto split: if_splits)
  have r: "2 * i + 2 < length h \<Longrightarrow> \<not> cmp (h ! (2 * i + 2)) (h ! i) < 0"
    using t unfolding bubbleDown_target_def getLeftChildIndex_def getRightChildIndex_def Let_def
    by (auto split: if_splits)
  from cc c l r have "\<not> cmp (h ! c) (h ! i) < 0" by auto
  then show ?thesis by (rule cmp_flip[OF ok])
qed

lemma target_move:
  assumes ok: "consistent_comparator cmp"
    and t: "bubbleDown_target cmp h i = t" "t \<noteq> i"
  shows "t < length h" "0 < t" "parent t = i" "cmp (h ! t) (h ! i) \<le> 0"
    "\<And>c. 0 < c \<Longrightarrow> c < length h \<Longrightarrow> parent c = i \<Longrightarrow> cmp (h ! t) (h ! c) \<le> 0"
proof -
  from bubbleDown_target_cases[of cmp h i] t
  have tl: "t < length h" and tc: "t = 2 * i + 1 \<or> t = 2 * i + 2" by auto
  show "t < length h" by fact
  from tc show t0: "0 < t" by auto
  from tc t0 show pt: "parent t = i" using parent_eq_iff[of t i] by simp
  have "cmp (h ! t) (h ! i) < 0 \<or>
        (cmp (h ! t) (h ! (2 * i + 1)) < 0 \<and> cmp (h ! (2 * i + 1)) (h ! i) < 0)"
    using t unfolding bubbleDown_target_def getLeftChildIndex_def getRightChildIndex_def Let_def
    by (auto split: if_splits)
  then show lt: "cmp (h ! t) (h ! i) \<le> 0"
  proof
    assume "cmp (h ! t) (h ! i) < 0" then show ?thesis by simp
  next
    assume "cmp (h ! t) (h ! (2 * i + 1)) < 0 \<and> cmp (h ! (2 * i + 1)) (h ! i) < 0"
    then have "cmp (h ! t) (h ! (2 * i + 1)) \<le> 0" "cmp (h ! (2 * i + 1)) (h ! i) \<le> 0" by simp_all
    then show ?thesis by (rule cmp_trans[OF ok])
  qed
  fix c assume c: "0 < c" "c < length h" "parent c = i"
  then have cc: "c = 2 * i + 1 \<or> c = 2 * i + 2" using parent_eq_iff[of c i] by simp
  show "cmp (h ! t) (h ! c) \<le> 0"
  proof (cases "c = t")
    case True
    then show ?thesis using cmp_refl[OF ok] by simp
  next
    case False
    show ?thesis
    proof (cases "t = 2 * i + 1")
      case True
      with cc False have c2: "c = 2 * i + 2" by simp
      have "\<not> cmp (h ! (2 * i + 2)) (h ! (2 * i + 1)) < 0"
        using t True c c2
        unfolding bubbleDown_target_def getLeftChildIndex_def getRightChildIndex_def Let_def
        by (auto split: if_splits)
      then show ?thesis using True c2 cmp_flip[OF ok] by simp
    next
      case False
      with tc have t2: "t = 2 * i + 2" by simp
      with cc \<open>c \<noteq> t\<close> have c1: "c = 2 * i + 1" by simp
      show ?thesis
      proof (cases "cmp (h ! (2 * i + 1)) (h ! i) < 0")
        case True
        then have "cmp (h ! (2 * i + 2)) (h ! (2 * i + 1)) < 0"
          using t t2 c c1
          unfolding bubbleDown_target_def getLeftChildIndex_def getRightChildIndex_def Let_def
          by (auto split: if_splits)
        then show ?thesis using t2 c1 by simp
      next
        case False
        then have "cmp (h ! i) (h ! c) \<le> 0" using c1 cmp_flip[OF ok] by simp
        with lt show ?thesis by (rule cmp_trans[OF ok])
      qed
    qed
  qed
qed

lemma bubbleDown_stay: "bubbleDown_target cmp h i = i \<Longrightarrow> bubbleDown cmp h i = h"
  by (subst bubbleDown.simps) simp

lemma bubbleDown_move:
  "bubbleDown_target cmp h i = t \<Longrightarrow> t \<noteq> i \<Longrightarrow> bubbleDown cmp h i = bubbleDown cmp (swap h i t) t"
  by (subst bubbleDown.simps) (simp add: Let_def)

lemma sift_down_step:
  assumes ok: "consistent_comparator cmp"
    and ki: "k \<le> i"
    and inv: "sift_down_inv cmp h k i"
    and t: "bubbleDown_target cmp h i = t" "t \<noteq> i"
  shows "sift_down_inv cmp (swap h i t) k t"
proof -
  note tm = target_move[OF ok t]
  from tm have it: "i < t" using parent_less[of t] by simp
  with tm have il: "i < length h" by simp
  let ?h = "swap h i t"
  have at_i: "?h ! i = h ! t" using il tm(1) by (rule swap_nth_fst)
  have at_t: "?h ! t = h ! i" using tm(1) by (rule swap_nth_snd)
  have at_o: "\<And>j. j \<noteq> i \<Longrightarrow> j \<noteq> t \<Longrightarrow> ?h ! j = h ! j" by (rule swap_nth_other)
  from inv have inv1: "\<And>c. 0 < c \<Longrightarrow> c < length h \<Longrightarrow> k \<le> parent c \<Longrightarrow> parent c \<noteq> i
      \<Longrightarrow> cmp (h ! parent c) (h ! c) \<le> 0"
    unfolding sift_down_inv_def by blast
  from inv have inv2: "\<And>c. 0 < i \<Longrightarrow> k \<le> parent i \<Longrightarrow> 0 < c \<Longrightarrow> c < length h \<Longrightarrow> parent c = i
      \<Longrightarrow> cmp (h ! parent i) (h ! c) \<le> 0"
    unfolding sift_down_inv_def by blast
  have p1: "cmp (?h ! parent c) (?h ! c) \<le> 0"
    if c: "0 < c" "c < length ?h" "k \<le> parent c" "parent c \<noteq> t" for c
  proof (cases "parent c = i")
    case True
    then have ci: "c \<noteq> i" using parent_less[OF c(1)] by auto
    show ?thesis
    proof (cases "c = t")
      case True
      with \<open>parent c = i\<close> at_i at_t tm(4) show ?thesis by simp
    next
      case False
      with ci have "?h ! c = h ! c" by (simp add: at_o)
      moreover have "cmp (h ! t) (h ! c) \<le> 0" using tm(5)[of c] c True by simp
      ultimately show ?thesis using True at_i by simp
    qed
  next
    case False
    with c(4) have pc: "?h ! parent c = h ! parent c" by (simp add: at_o)
    from False tm(3) have ct: "c \<noteq> t" by auto
    show ?thesis
    proof (cases "c = i")
      case True
      with c have "cmp (h ! parent i) (h ! t) \<le> 0" using inv2[of t] tm by simp
      with True pc at_i show ?thesis by simp
    next
      case False
      with ct have "?h ! c = h ! c" by (simp add: at_o)
      with pc show ?thesis using inv1[of c] c \<open>parent c \<noteq> i\<close> by simp
    qed
  qed
  have p2: "cmp (?h ! parent t) (?h ! c) \<le> 0"
    if c: "0 < c" "c < length ?h" "parent c = t" for c
  proof -
    from c have "t < c" using parent_less[of c] by simp
    with it have "c \<noteq> i" "c \<noteq> t" by simp_all
    then have "?h ! c = h ! c" by (simp add: at_o)
    moreover have "cmp (h ! parent c) (h ! c) \<le> 0"
      using inv1[of c] c ki it t(2) by simp
    ultimately show ?thesis using c(3) tm(3) at_i by simp
  qed
  show ?thesis unfolding sift_down_inv_def using p1 p2 by blast
qed

lemma bubbleDown_ordered:
  "consistent_comparator cmp \<Longrightarrow> k \<le> i \<Longrightarrow> sift_down_inv cmp h k i
   \<Longrightarrow> ordered_from cmp (bubbleDown cmp h i) k"
proof (induction cmp h i rule: bubbleDown.induct)
  case (1 cmp h index)
  show ?case
  proof (cases "bubbleDown_target cmp h index = index")
    case True
    have "ordered_from cmp h k"
    proof (rule ordered_fromI)
      fix c assume c: "0 < c" "c < length h" "k \<le> parent c"
      show "cmp (h ! parent c) (h ! c) \<le> 0"
      proof (cases "parent c = index")
        case True
        with target_stay[OF "1.prems"(1) \<open>bubbleDown_target cmp h index = index\<close> c(1,2)]
        show ?thesis by simp
      next
        case False
        with "1.prems"(3) c show ?thesis unfolding sift_down_inv_def by blast
      qed
    qed
    with True show ?thesis by (simp add: bubbleDown_stay)
  next
    case False
    define t where "t = bubbleDown_target cmp h index"
    with False have t: "bubbleDown_target cmp h index = t" "t \<noteq> index" by simp_all
    have "index < t" using target_move(2,3)[OF "1.prems"(1) t] parent_less[of t] by simp
    with "1.prems"(2) have kt: "k \<le> t" by simp
    have "sift_down_inv cmp (swap h index t) k t"
      using "1.prems" t by (rule sift_down_step)
    with "1.IH"[of t] t "1.prems"(1) kt
    have "ordered_from cmp (bubbleDown cmp (swap h index t) t) k" by simp
    then show ?thesis using bubbleDown_move[OF t] by simp
  qed
qed

lemma mset_bubbleDown [simp]: "mset (bubbleDown cmp h i) = mset h"
proof (induction cmp h i rule: bubbleDown.induct)
  case (1 cmp h index)
  show ?case
  proof (cases "bubbleDown_target cmp h index = index")
    case True
    then show ?thesis by (simp add: bubbleDown_stay)
  next
    case False
    define t where "t = bubbleDown_target cmp h index"
    with False have t: "bubbleDown_target cmp h index = t" "t \<noteq> index" by simp_all
    from bubbleDown_target_cases[of cmp h index] t
    have "t < length h" "index < length h" by auto
    then have "mset (swap h index t) = mset h" by (simp add: mset_swap_heap)
    with "1.IH"[of t] t show ?thesis using bubbleDown_move[OF t] by simp
  qed
qed

definition sift_up_inv :: "'a Comparator \<Rightarrow> 'a list \<Rightarrow> nat \<Rightarrow> bool" where
  "sift_up_inv cmp h i \<longleftrightarrow>
     (\<forall>c. 0 < c \<and> c < length h \<and> c \<noteq> i \<longrightarrow> cmp (h ! parent c) (h ! c) \<le> 0) \<and>
     (0 < i \<longrightarrow>
        (\<forall>c. 0 < c \<and> c < length h \<and> parent c = i \<longrightarrow> cmp (h ! parent i) (h ! c) \<le> 0))"

lemma bubbleUp_root: "bubbleUp cmp h 0 = h"
  by (subst bubbleUp.simps) simp

lemma bubbleUp_stay:
  "0 < i \<Longrightarrow> \<not> cmp (h ! i) (h ! parent i) < 0 \<Longrightarrow> bubbleUp cmp h i = h"
  by (subst bubbleUp.simps) (simp add: nat_getParentIndex)

lemma bubbleUp_move:
  "0 < i \<Longrightarrow> cmp (h ! i) (h ! parent i) < 0
   \<Longrightarrow> bubbleUp cmp h i = bubbleUp cmp (swap h i (parent i)) (parent i)"
  by (subst bubbleUp.simps) (simp add: nat_getParentIndex Let_def)

lemma sift_up_step:
  assumes ok: "consistent_comparator cmp"
    and il: "i < length h" and i0: "0 < i"
    and inv: "sift_up_inv cmp h i"
    and lt: "cmp (h ! i) (h ! parent i) < 0"
  shows "sift_up_inv cmp (swap h i (parent i)) (parent i)"
proof -
  define p where "p = parent i"
  have pi: "p < i" unfolding p_def using i0 by (rule parent_less)
  with il have pl: "p < length h" by simp
  let ?h = "swap h i p"
  have at_i: "?h ! i = h ! p" using il pl by (rule swap_nth_fst)
  have at_p: "?h ! p = h ! i" using pl by (rule swap_nth_snd)
  have at_o: "\<And>j. j \<noteq> i \<Longrightarrow> j \<noteq> p \<Longrightarrow> ?h ! j = h ! j" by (rule swap_nth_other)
  from lt have le: "cmp (h ! i) (h ! p) \<le> 0" unfolding p_def by simp
  from inv have inv1: "\<And>c. 0 < c \<Longrightarrow> c < length h \<Longrightarrow> c \<noteq> i
      \<Longrightarrow> cmp (h ! parent c) (h ! c) \<le> 0"
    unfolding sift_up_inv_def by blast
  from inv i0 have inv2: "\<And>c. 0 < c \<Longrightarrow> c < length h \<Longrightarrow> parent c = i
      \<Longrightarrow> cmp (h ! p) (h ! c) \<le> 0"
    unfolding sift_up_inv_def p_def by blast
  have p1: "cmp (?h ! parent c) (?h ! c) \<le> 0"
    if c: "0 < c" "c < length ?h" "c \<noteq> p" for c
  proof (cases "c = i")
    case True
    with at_i at_p le show ?thesis by (simp add: p_def)
  next
    case False
    with c(3) have cc: "?h ! c = h ! c" by (simp add: at_o)
    consider "parent c = p" | "parent c = i" | "parent c \<noteq> p" "parent c \<noteq> i" by blast
    then show ?thesis
    proof cases
      case 1
      have "cmp (h ! p) (h ! c) \<le> 0" using inv1[of c] c False 1 by simp
      with le have "cmp (h ! i) (h ! c) \<le> 0" by (rule cmp_trans[OF ok])
      with 1 cc at_p show ?thesis by simp
    next
      case 2
      have "cmp (h ! p) (h ! c) \<le> 0" using inv2[of c] c 2 by simp
      with 2 cc at_i show ?thesis by simp
    next
      case 3
      then have "?h ! parent c = h ! parent c" by (simp add: at_o)
      with cc show ?thesis using inv1[of c] c False by simp
    qed
  qed
  have p2: "cmp (?h ! parent p) (?h ! c) \<le> 0"
    if c: "0 < p" "0 < c" "c < length ?h" "parent c = p" for c
  proof -
    have "parent p < p" using c(1) by (rule parent_less)
    with pi have "?h ! parent p = h ! parent p" by (simp add: at_o)
    moreover have gp: "cmp (h ! parent p) (h ! p) \<le> 0" using inv1[of p] c(1) pl pi by simp
    moreover have "cmp (h ! parent p) (?h ! c) \<le> 0"
    proof (cases "c = i")
      case True
      with at_i gp show ?thesis by simp
    next
      case False
      from c have "c \<noteq> p" using parent_less[of c] by auto
      with False have "?h ! c = h ! c" by (simp add: at_o)
      moreover have "cmp (h ! p) (h ! c) \<le> 0" using inv1[of c] c False by simp
      ultimately show ?thesis using cmp_trans[OF ok gp] by simp
    qed
    ultimately show ?thesis by simp
  qed
  show ?thesis unfolding sift_up_inv_def p_def[symmetric] using p1 p2 by blast
qed

lemma bubbleUp_ordered:
  "consistent_comparator cmp \<Longrightarrow> i < length h \<Longrightarrow> sift_up_inv cmp h i
   \<Longrightarrow> ordered_from cmp (bubbleUp cmp h i) 0"
proof (induction cmp h i rule: bubbleUp.induct)
  case (1 cmp h index)
  note inv = "1.prems"(3)
  show ?case
  proof (cases "0 < index")
    case False
    then have "index = 0" by simp
    moreover have "ordered_from cmp h 0"
      using inv \<open>index = 0\<close> unfolding sift_up_inv_def by (intro ordered_fromI) simp
    ultimately show ?thesis by (simp add: bubbleUp_root)
  next
    case True
    show ?thesis
    proof (cases "cmp (h ! index) (h ! parent index) < 0")
      case False
      then have le: "cmp (h ! parent index) (h ! index) \<le> 0" by (rule cmp_flip[OF "1.prems"(1)])
      have "ordered_from cmp h 0"
      proof (rule ordered_fromI)
        fix c assume "0 < c" "c < length h"
        then show "cmp (h ! parent c) (h ! c) \<le> 0"
          using inv le unfolding sift_up_inv_def by (cases "c = index") auto
      qed
      with True False show ?thesis by (simp add: bubbleUp_stay)
    next
      case lt: True
      have pl: "parent index < length h" using parent_less[OF True] "1.prems"(2) by simp
      have step: "sift_up_inv cmp (swap h index (parent index)) (parent index)"
        using "1.prems"(1,2) True inv lt by (rule sift_up_step)
      have "ordered_from cmp (bubbleUp cmp (swap h index (parent index)) (parent index)) 0"
        using "1.IH"[of "parent index"] True lt "1.prems"(1) pl step
        by (simp add: nat_getParentIndex)
      then show ?thesis using bubbleUp_move[of index cmp h] True lt by simp
    qed
  qed
qed

lemma mset_bubbleUp: "i < length h \<Longrightarrow> mset (bubbleUp cmp h i) = mset h"
proof (induction cmp h i rule: bubbleUp.induct)
  case (1 cmp h index)
  show ?case
  proof (cases "0 < index \<and> cmp (h ! index) (h ! parent index) < 0")
    case False
    then show ?thesis using bubbleUp_root[of cmp h] bubbleUp_stay[of index cmp h]
      by (cases "0 < index") auto
  next
    case True
    then have pl: "parent index < length h" using parent_less[of index] "1.prems" by simp
    with "1.prems" have "mset (swap h index (parent index)) = mset h" by (simp add: mset_swap_heap)
    with "1.IH"[of "parent index"] True pl show ?thesis
      using bubbleUp_move[of index cmp h] by (simp add: nat_getParentIndex)
  qed
qed

lemma length_bubbleUp [simp]: "length (bubbleUp cmp h i) = length h"
proof (induction cmp h i rule: bubbleUp.induct)
  case (1 cmp h index)
  show ?case
  proof (cases "0 < index \<and> cmp (h ! index) (h ! parent index) < 0")
    case False
    then show ?thesis using bubbleUp_root[of cmp h] bubbleUp_stay[of index cmp h]
      by (cases "0 < index") auto
  next
    case True
    with "1.IH"[of "parent index"] show ?thesis
      using bubbleUp_move[of index cmp h] by (simp add: nat_getParentIndex)
  qed
qed

lemma heapify_loop_ordered:
  "consistent_comparator cmp \<Longrightarrow> - 1 \<le> i \<Longrightarrow> ordered_from cmp h (nat (i + 1))
   \<Longrightarrow> ordered_from cmp (heapify_loop cmp h i) 0"
proof (induction cmp h i rule: heapify_loop.induct)
  case (1 cmp h i)
  show ?case
  proof (cases "0 \<le> i")
    case False
    with "1.prems" have "i = - 1" by simp
    with "1.prems"(3) show ?thesis by (subst heapify_loop.simps) simp
  next
    case True
    have "sift_down_inv cmp h (nat i) (nat i)"
      unfolding sift_down_inv_def
    proof (intro conjI allI impI)
      fix c assume c: "0 < c \<and> c < length h \<and> nat i \<le> parent c \<and> parent c \<noteq> nat i"
      then have "nat (i + 1) \<le> parent c" using True by linarith
      with c "1.prems"(3) show "cmp (h ! parent c) (h ! c) \<le> 0"
        by (simp add: ordered_fromD)
    next
      fix c assume "0 < nat i \<and> nat i \<le> parent (nat i)"
      then have False using parent_less[of "nat i"] by simp
      then show "cmp (h ! parent (nat i)) (h ! c) \<le> 0" ..
    qed
    with "1.prems"(1) have "ordered_from cmp (bubbleDown cmp h (nat i)) (nat i)"
      by (intro bubbleDown_ordered) simp_all
    moreover have "nat (i - 1 + 1) = nat i" by simp
    ultimately have "ordered_from cmp (heapify_loop cmp (bubbleDown cmp h (nat i)) (i - 1)) 0"
      using "1.IH" True "1.prems"(1) by simp
    with True show ?thesis by (subst heapify_loop.simps) simp
  qed
qed

lemma mset_heapify_loop [simp]: "mset (heapify_loop cmp h i) = mset h"
proof (induction cmp h i rule: heapify_loop.induct)
  case (1 cmp h i)
  then show ?case by (subst heapify_loop.simps) simp
qed

lemma heapify_heap_property:
  assumes "consistent_comparator cmp" shows "heap_property cmp (heapify cmp h)"
proof -
  have "ordered_from cmp h (nat (int (length h) div 2 - 1 + 1))"
  proof (rule ordered_fromI)
    fix c assume "0 < c" "c < length h" "nat (int (length h) div 2 - 1 + 1) \<le> parent c"
    then have False unfolding parent_def by (simp add: nat_div_distrib)
    then show "cmp (h ! parent c) (h ! c) \<le> 0" ..
  qed
  moreover have "- 1 \<le> int (length h) div 2 - 1" by simp
  ultimately show ?thesis using assms
    unfolding heapify_def heap_property_iff by (simp add: heapify_loop_ordered)
qed

lemma mset_heapify [simp]: "mset (heapify cmp h) = mset h"
  by (simp add: heapify_def)

lemma length_heapify [simp]: "length (heapify cmp h) = length h"
  using mset_heapify[of cmp h] by (metis size_mset)

subsection \<open>The array built-in \<^verbatim>\<open>indexOf\<close>\<close>


lemma indexOf_from_range:
  "v \<in> set xs \<Longrightarrow> k \<le> indexOf_from xs v k \<and> indexOf_from xs v k < k + int (length xs)"
proof (induction xs arbitrary: k)
  case Nil
  then show ?case by simp
next
  case (Cons x xs)
  show ?case
  proof (cases "x = v")
    case True
    then show ?thesis by simp
  next
    case False
    with Cons.prems have "v \<in> set xs" by simp
    from Cons.IH[OF this, of "k + 1"] False show ?thesis by simp
  qed
qed

lemma indexOf_from_notin: "v \<notin> set xs \<Longrightarrow> indexOf_from xs v k = - 1"
  by (induction xs arbitrary: k) auto

lemma indexOf_from_nth: "v \<in> set xs \<Longrightarrow> xs ! nat (indexOf_from xs v k - k) = v"
proof (induction xs arbitrary: k)
  case Nil
  then show ?case by simp
next
  case (Cons x xs)
  show ?case
  proof (cases "x = v")
    case True
    then show ?thesis by simp
  next
    case False
    with Cons.prems have v: "v \<in> set xs" by simp
    from indexOf_from_range[OF v, of "k + 1"]
    have "nat (indexOf_from xs v (k + 1) - k) = Suc (nat (indexOf_from xs v (k + 1) - (k + 1)))"
      by linarith
    with Cons.IH[OF v, of "k + 1"] False show ?thesis by simp
  qed
qed

lemma indexOf_from_first:
  "v \<in> set xs \<Longrightarrow> j < nat (indexOf_from xs v k - k) \<Longrightarrow> xs ! j \<noteq> v"
proof (induction xs arbitrary: k j)
  case Nil
  then show ?case by simp
next
  case (Cons x xs)
  show ?case
  proof (cases "x = v")
    case True
    with Cons.prems show ?thesis by simp
  next
    case False
    with Cons.prems have v: "v \<in> set xs" by simp
    show ?thesis
    proof (cases j)
      case 0
      with False show ?thesis by simp
    next
      case (Suc j')
      from indexOf_from_range[OF v, of "k + 1"]
      have "nat (indexOf_from xs v (k + 1) - k) = Suc (nat (indexOf_from xs v (k + 1) - (k + 1)))"
        by linarith
      with Cons.prems(2) False Suc have "j' < nat (indexOf_from xs v (k + 1) - (k + 1))" by simp
      from Cons.IH[OF v this] Suc show ?thesis by simp
    qed
  qed
qed

lemma indexOf_notin: "indexOf h v = - 1 \<longleftrightarrow> v \<notin> set h"
  using indexOf_from_notin[of v h 0] indexOf_from_range[of v h 0]
  unfolding indexOf_def by auto

lemma indexOf_found:
  assumes "v \<in> set h"
  shows "0 \<le> indexOf h v" "nat (indexOf h v) < length h" "h ! nat (indexOf h v) = v"
    "\<And>j. j < nat (indexOf h v) \<Longrightarrow> h ! j \<noteq> v"
  using indexOf_from_range[OF assms, of 0] indexOf_from_nth[OF assms, of 0]
    indexOf_from_first[OF assms, of _ 0]
  unfolding indexOf_def by auto

text \<open>The root of a heap is not after any element.\<close>

lemma root_least_index:
  assumes ok: "consistent_comparator cmp" and hp: "ordered_from cmp h 0"
  shows "c < length h \<Longrightarrow> cmp (h ! 0) (h ! c) \<le> 0"
proof (induction c rule: less_induct)
  case (less c)
  show ?case
  proof (cases "c = 0")
    case True
    then show ?thesis using cmp_refl[OF ok] by simp
  next
    case False
    then have c0: "0 < c" by simp
    then have pc: "parent c < c" by (rule parent_less)
    with less have "cmp (h ! 0) (h ! parent c) \<le> 0" by simp
    moreover have "cmp (h ! parent c) (h ! c) \<le> 0"
      using hp c0 less.prems by (simp add: ordered_fromD)
    ultimately show ?thesis by (rule cmp_trans[OF ok])
  qed
qed

lemma root_least:
  assumes "consistent_comparator cmp" and "heap_property cmp h" and "x \<in> set h"
  shows "cmp (h ! 0) x \<le> 0"
proof -
  from assms(3) obtain c where "c < length h" "h ! c = x" by (auto simp: in_set_conv_nth)
  with root_least_index[OF assms(1), of h c] assms(2) show ?thesis
    by (simp add: heap_property_iff)
qed

subsection \<open>The heap property across the array updates of the methods\<close>

lemma append_heap_property:
  assumes ok: "consistent_comparator cmp" and hp: "heap_property cmp h"
  shows "heap_property cmp (bubbleUp cmp (h @ [v]) (length h))"
proof -
  from hp have o: "ordered_from cmp h 0" by (simp add: heap_property_iff)
  have "sift_up_inv cmp (h @ [v]) (length h)"
    unfolding sift_up_inv_def
  proof (intro conjI allI impI)
    fix c assume c: "0 < c \<and> c < length (h @ [v]) \<and> c \<noteq> length h"
    then have cl: "c < length h" by simp
    moreover have "parent c < length h" using c cl parent_less[of c] by simp
    ultimately show "cmp ((h @ [v]) ! parent c) ((h @ [v]) ! c) \<le> 0"
      using ordered_fromD[OF o, of c] c by (simp add: nth_append)
  next
    fix c assume "0 < length h" and "0 < c \<and> c < length (h @ [v]) \<and> parent c = length h"
    then have False using parent_less[of c] by simp
    then show "cmp ((h @ [v]) ! parent (length h)) ((h @ [v]) ! c) \<le> 0" ..
  qed
  then have "ordered_from cmp (bubbleUp cmp (h @ [v]) (length h)) 0"
    using ok by (intro bubbleUp_ordered) simp_all
  then show ?thesis by (simp add: heap_property_iff)
qed

lemma root_update_heap_property:
  assumes ok: "consistent_comparator cmp" and o: "ordered_from cmp h 0"
    and g: "length g \<le> length h" "\<And>j. 0 < j \<Longrightarrow> j < length g \<Longrightarrow> g ! j = h ! j"
  shows "heap_property cmp (bubbleDown cmp g 0)"
proof -
  have "sift_down_inv cmp g 0 0"
    unfolding sift_down_inv_def
  proof (intro conjI allI impI)
    fix c assume c: "0 < c \<and> c < length g \<and> 0 \<le> parent c \<and> parent c \<noteq> 0"
    then have "parent c < length g" "0 < parent c" using parent_less[of c] by simp_all
    with c g show "cmp (g ! parent c) (g ! c) \<le> 0"
      using ordered_fromD[OF o, of c] by simp
  next
    fix c assume "(0::nat) < 0 \<and> 0 \<le> parent 0"
    then show "cmp (g ! parent 0) (g ! c) \<le> 0" by simp
  qed
  with ok have "ordered_from cmp (bubbleDown cmp g 0) 0"
    by (intro bubbleDown_ordered) simp_all
  then show ?thesis by (simp add: heap_property_iff)
qed

lemma pop_heap_property:
  assumes ok: "consistent_comparator cmp" and hp: "heap_property cmp h"
  shows "heap_property cmp (bubbleDown cmp ((butlast h)[0 := last h]) 0)"
  using ok
proof (rule root_update_heap_property)
  show "ordered_from cmp h 0" using hp by (simp add: heap_property_iff)
  show "length ((butlast h)[0 := last h]) \<le> length h" by simp
  fix j assume "0 < j" "j < length ((butlast h)[0 := last h])"
  then show "(butlast h)[0 := last h] ! j = h ! j" by (simp add: nth_butlast)
qed

lemma replace_heap_property:
  assumes ok: "consistent_comparator cmp" and hp: "heap_property cmp h"
  shows "heap_property cmp (bubbleDown cmp (h[0 := v]) 0)"
  using ok
proof (rule root_update_heap_property)
  show "ordered_from cmp h 0" using hp by (simp add: heap_property_iff)
  show "length (h[0 := v]) \<le> length h" by simp
  fix j assume "0 < j" "j < length (h[0 := v])"
  then show "h[0 := v] ! j = h ! j" by simp
qed

lemma butlast_heap_property:
  assumes "heap_property cmp h" shows "heap_property cmp (butlast h)"
proof -
  from assms have o: "ordered_from cmp h 0" by (simp add: heap_property_iff)
  have "ordered_from cmp (butlast h) 0"
  proof (rule ordered_fromI)
    fix c assume c: "0 < c" "c < length (butlast h)"
    then have "parent c < length (butlast h)" using parent_less[of c] by simp
    with c show "cmp (butlast h ! parent c) (butlast h ! c) \<le> 0"
      using ordered_fromD[OF o, of c] by (simp add: nth_butlast)
  qed
  then show ?thesis by (simp add: heap_property_iff)
qed

lemma remove_up_heap_property:
  assumes ok: "consistent_comparator cmp" and hp: "heap_property cmp h"
    and idx: "idx < length h - 1" "0 < idx"
    and lt: "cmp (last h) (h ! parent idx) < 0"
  shows "heap_property cmp (bubbleUp cmp ((butlast h)[idx := last h]) idx)"
proof -
  from hp have o: "ordered_from cmp h 0" by (simp add: heap_property_iff)
  define g where "g = (butlast h)[idx := last h]"
  have gl: "length g = length h - 1" by (simp add: g_def)
  have g_idx: "g ! idx = last h" using idx by (simp add: g_def)
  have g_o: "\<And>j. j \<noteq> idx \<Longrightarrow> j < length g \<Longrightarrow> g ! j = h ! j"
    by (simp add: g_def nth_butlast)
  have pl: "parent idx < idx" using idx(2) by (rule parent_less)
  have up: "cmp (h ! parent idx) (h ! idx) \<le> 0" using ordered_fromD[OF o, of idx] idx by simp
  from lt have le: "cmp (last h) (h ! parent idx) \<le> 0" by simp
  have below: "cmp (h ! parent idx) (h ! c) \<le> 0"
    if "0 < c" "c < length g" "parent c = idx" for c
  proof -
    from that gl have "c < length h" by arith
    then have "cmp (h ! idx) (h ! c) \<le> 0" using ordered_fromD[OF o, of c] that by simp
    with up show ?thesis by (rule cmp_trans[OF ok])
  qed
  have "sift_up_inv cmp g idx"
    unfolding sift_up_inv_def
  proof (intro conjI allI impI)
    fix c assume c: "0 < c \<and> c < length g \<and> c \<noteq> idx"
    then have gc: "g ! c = h ! c" by (simp add: g_o)
    show "cmp (g ! parent c) (g ! c) \<le> 0"
    proof (cases "parent c = idx")
      case True
      from below[of c] c True have "cmp (h ! parent idx) (h ! c) \<le> 0" by simp
      with le have "cmp (last h) (h ! c) \<le> 0" by (rule cmp_trans[OF ok])
      with True gc g_idx show ?thesis by simp
    next
      case False
      moreover have "parent c < length g" using c parent_less[of c] by simp
      ultimately have "g ! parent c = h ! parent c" by (simp add: g_o)
      moreover from c gl have "c < length h" by arith
      ultimately show ?thesis using gc ordered_fromD[OF o, of c] c by simp
    qed
  next
    fix c assume "0 < idx" and c: "0 < c \<and> c < length g \<and> parent c = idx"
    then have "c \<noteq> idx" using parent_less[of c] by auto
    with c have "g ! c = h ! c" by (simp add: g_o)
    moreover have "g ! parent idx = h ! parent idx" using pl idx gl by (simp add: g_o)
    ultimately show "cmp (g ! parent idx) (g ! c) \<le> 0" using below[of c] c by simp
  qed
  then have "ordered_from cmp (bubbleUp cmp g idx) 0"
    using ok idx gl by (intro bubbleUp_ordered) simp_all
  then show ?thesis by (simp add: heap_property_iff g_def)
qed

lemma remove_down_heap_property:
  assumes ok: "consistent_comparator cmp" and hp: "heap_property cmp h"
    and idx: "idx < length h - 1"
    and ge: "0 < idx \<Longrightarrow> \<not> cmp (last h) (h ! parent idx) < 0"
  shows "heap_property cmp (bubbleDown cmp ((butlast h)[idx := last h]) idx)"
proof -
  from hp have o: "ordered_from cmp h 0" by (simp add: heap_property_iff)
  define g where "g = (butlast h)[idx := last h]"
  have gl: "length g = length h - 1" by (simp add: g_def)
  have g_idx: "g ! idx = last h" using idx by (simp add: g_def)
  have g_o: "\<And>j. j \<noteq> idx \<Longrightarrow> j < length g \<Longrightarrow> g ! j = h ! j"
    by (simp add: g_def nth_butlast)
  have "sift_down_inv cmp g 0 idx"
    unfolding sift_down_inv_def
  proof (intro conjI allI impI)
    fix c assume c: "0 < c \<and> c < length g \<and> 0 \<le> parent c \<and> parent c \<noteq> idx"
    then have pl: "parent c < length g" using parent_less[of c] by simp
    with c have gp: "g ! parent c = h ! parent c" by (simp add: g_o)
    show "cmp (g ! parent c) (g ! c) \<le> 0"
    proof (cases "c = idx")
      case True
      with c ge have "\<not> cmp (last h) (h ! parent idx) < 0" by simp
      then have "cmp (h ! parent idx) (last h) \<le> 0" by (rule cmp_flip[OF ok])
      with True gp g_idx show ?thesis by simp
    next
      case False
      with c have "g ! c = h ! c" by (simp add: g_o)
      moreover from c gl have "c < length h" by arith
      ultimately show ?thesis using gp ordered_fromD[OF o, of c] c by simp
    qed
  next
    fix c assume i0: "0 < idx \<and> 0 \<le> parent idx" and c: "0 < c \<and> c < length g \<and> parent c = idx"
    then have "c \<noteq> idx" using parent_less[of c] by auto
    with c have gc: "g ! c = h ! c" by (simp add: g_o)
    have "parent idx < idx" using i0 parent_less[of idx] by simp
    then have gp: "g ! parent idx = h ! parent idx" using idx gl by (simp add: g_o)
    have "cmp (h ! parent idx) (h ! idx) \<le> 0" using ordered_fromD[OF o, of idx] idx i0 by simp
    moreover from c gl have "c < length h" by arith
    then have "cmp (h ! idx) (h ! c) \<le> 0" using ordered_fromD[OF o, of c] c by simp
    ultimately have "cmp (h ! parent idx) (h ! c) \<le> 0" by (rule cmp_trans[OF ok])
    with gc gp show "cmp (g ! parent idx) (g ! c) \<le> 0" by simp
  qed
  with ok have "ordered_from cmp (bubbleDown cmp g idx) 0"
    by (intro bubbleDown_ordered) simp_all
  then show ?thesis by (simp add: heap_property_iff g_def)
qed


subsection \<open>The methods keep the comparator and the heap property\<close>

lemma heapify_loop_Nil [simp]: "heapify cmp [] = []"
  unfolding heapify_def by (subst heapify_loop.simps) simp

lemma not_MinHeap: "t \<noteq> MinHeap \<longleftrightarrow> t = MaxHeap"
  by (cases t) simp_all

lemma compare_new:
  "compare (PriorityQueue_new minus_any options) =
     (case comparator options of
        Some c \<Rightarrow> c
      | None \<Rightarrow> (if heapType options = Some MaxHeap then (\<lambda>a b. minus_any b a)
                  else (\<lambda>a b. minus_any a b)))"
  unfolding PriorityQueue_new_def Let_def
  by (auto simp: not_MinHeap split: option.splits)

lemma heap_new:
  "heap (PriorityQueue_new minus_any options) =
     (case initialValues options of
        None \<Rightarrow> []
      | Some vs \<Rightarrow> heapify (compare (PriorityQueue_new minus_any options)) vs)"
  unfolding PriorityQueue_new_def Let_def
  by (auto simp: not_MinHeap split: option.splits)

lemma compare_push [simp]: "compare (snd (push q v)) = compare q"
  by (simp add: push_def Let_def)

lemma heap_push: "heap (snd (push q v)) = bubbleUp (compare q) (heap q @ [v]) (length (heap q))"
  by (simp add: push_def Let_def)

lemma compare_pop [simp]: "compare (snd (pop q)) = compare q"
  by (simp add: pop_def Let_def)

lemma compare_replace [simp]: "compare (snd (replace q v)) = compare q"
  by (simp add: replace_def Let_def)

lemma compare_pushPop [simp]: "compare (snd (pushPop q v)) = compare q"
  by (simp add: pushPop_def)

lemma compare_remove [simp]: "compare (snd (remove q v)) = compare q"
  by (simp add: remove_def Let_def)

lemma compare_clear [simp]: "compare (clear q) = compare q"
  by (simp add: clear_def)

lemma compare_toSortedArray [simp]: "compare (snd (toSortedArray q)) = compare q"
proof -
  have "compare (snd (toSortedArray_loop q acc)) = compare q" for acc
  proof (induction q acc rule: toSortedArray_loop.induct)
    case (1 q acc)
    then show ?case by (subst toSortedArray_loop.simps) simp
  qed
  then show ?thesis by (simp add: toSortedArray_def Let_def)
qed

lemma heap_toSortedArray [simp]: "heap (snd (toSortedArray q)) = heap q"
  by (simp add: toSortedArray_def Let_def)

lemma iterate_Finished [simp]: "iterate q Finished = []"
  by (subst iterate.simps) simp

lemma iterate_Live: "iterate q (Live i) = drop i (heap q)"
proof (induction "length (heap q) - i" arbitrary: i)
  case 0
  then show ?case by (subst iterate.simps) simp
next
  case (Suc n)
  then have il: "i < length (heap q)" by simp
  from Suc have "n = length (heap q) - (i + 1)" by simp
  then have "iterate q (Live (i + 1)) = drop (i + 1) (heap q)" by (rule Suc.hyps(1))
  with il show ?case by (subst iterate.simps) (simp add: Cons_nth_drop_Suc)
qed

lemma iterate_Detached: "iterate q (Detached a i) = drop i a"
proof (induction "length a - i" arbitrary: i)
  case 0
  then show ?case by (subst iterate.simps) simp
next
  case (Suc n)
  then have il: "i < length a" by simp
  from Suc have "n = length a - (i + 1)" by simp
  then have "iterate q (Detached a (i + 1)) = drop (i + 1) a" by (rule Suc.hyps(1))
  with il show ?case by (subst iterate.simps) (simp add: Cons_nth_drop_Suc)
qed

lemma iterate_Fresh: "iterate q Fresh = heap q"
proof (cases "heap q")
  case Nil
  then show ?thesis by (subst iterate.simps) simp
next
  case (Cons x xs)
  then show ?thesis by (subst iterate.simps) (simp add: iterate_Live)
qed

lemma merge_loop_eq:
  "merge_loop this other it = this\<lparr>heap := heap this @ iterate other it\<rparr>"
proof (induction this other it rule: merge_loop.induct)
  case (1 this other it)
  show ?case
  proof (cases "iterator_next other it")
    case (Pair r it')
    show ?thesis
    proof (cases r)
      case None
      with Pair show ?thesis
        by (subst merge_loop.simps, subst iterate.simps) simp
    next
      case (Some v)
      with Pair "1.IH"[of r it' v]
      have "merge_loop (this\<lparr>heap := heap this @ [v]\<rparr>) other it'
            = this\<lparr>heap := heap this @ [v] @ iterate other it'\<rparr>"
        by simp
      with Pair Some show ?thesis
        by (subst merge_loop.simps, subst iterate.simps) simp
    qed
  qed
qed

lemma merge_eq:
  "merge this other =
     (this\<lparr>heap := heapify (compare this) (heap this @ heap other)\<rparr>, other)"
  by (simp add: merge_def merge_loop_eq iterator_def iterate_Fresh Let_def)

lemma merge_self_loop_end:
  assumes "merge_self_loop this it = Some r"
  shows "case it of Fresh \<Rightarrow> heap this = [] \<and> r = this
         | Live i \<Rightarrow> length (heap this) \<le> i \<and> r = this
         | _ \<Rightarrow> True"
proof (rule merge_self_loop.raw_induct
    [where P = "\<lambda>this it r. case it of Fresh \<Rightarrow> heap this = [] \<and> r = this
         | Live i \<Rightarrow> length (heap this) \<le> i \<and> r = this
         | _ \<Rightarrow> True", OF _ assms])
  fix loop :: "'a PriorityQueue \<Rightarrow> 'a Iterator \<Rightarrow> 'a PriorityQueue option" and this it r
  assume IH: "\<And>t i y. loop t i = Some y \<Longrightarrow>
         (case i of Fresh \<Rightarrow> heap t = [] \<and> y = t
          | Live k \<Rightarrow> length (heap t) \<le> k \<and> y = t
          | _ \<Rightarrow> True)"
    and eq: "(case iterator_next this it of
                (None, it') \<Rightarrow> Some this
              | (Some v, it') \<Rightarrow> loop (this\<lparr>heap := heap this @ [v]\<rparr>) it') = Some r"
  show "case it of Fresh \<Rightarrow> heap this = [] \<and> r = this
         | Live i \<Rightarrow> length (heap this) \<le> i \<and> r = this
         | _ \<Rightarrow> True"
  proof (cases it)
    case Fresh
    show ?thesis
    proof (cases "heap this = []")
      case True
      with eq Fresh show ?thesis by simp
    next
      case False
      with eq Fresh have "loop (this\<lparr>heap := heap this @ [heap this ! 0]\<rparr>) (Live 1) = Some r"
        by simp
      from IH[OF this] False show ?thesis by simp
    qed
  next
    case (Live i)
    show ?thesis
    proof (cases "i < length (heap this)")
      case True
      with eq Live have "loop (this\<lparr>heap := heap this @ [heap this ! i]\<rparr>) (Live (i + 1)) = Some r"
        by simp
      from IH[OF this] True show ?thesis by simp
    next
      case False
      with eq Live show ?thesis by simp
    qed
  qed simp_all
qed

lemma merge_self_Some: "merge_self q = Some q' \<Longrightarrow> heap q = [] \<and> q' = q"
  unfolding merge_self_def iterator_def
  by (auto split: option.splits dest!: merge_self_loop_end)

lemma merge_self_None: "heap q \<noteq> [] \<Longrightarrow> merge_self q = None"
  using merge_self_Some[of q] by (cases "merge_self q") auto

lemma merge_self_empty: "heap q = [] \<Longrightarrow> merge_self q = Some q"
  unfolding merge_self_def iterator_def
  by (subst merge_self_loop.simps) simp

lemma heap_property_Nil [simp]: "heap_property cmp []"
  by (simp add: heap_property_def)

lemma heap_property_single [simp]: "heap_property cmp [x]"
  by (simp add: heap_property_def)

lemma new_invariant:
  assumes "consistent_comparator (compare (PriorityQueue_new minus_any options))"
  shows "heap_property (compare (PriorityQueue_new minus_any options))
           (heap (PriorityQueue_new minus_any options))"
  using assms by (simp add: heap_new heapify_heap_property split: option.splits)

lemma push_invariant:
  assumes "consistent_comparator (compare q)" and "heap_property (compare q) (heap q)"
  shows "heap_property (compare q) (heap (snd (push q v)))"
  using assms by (simp add: heap_push append_heap_property)

lemma pop_invariant:
  assumes "consistent_comparator (compare q)" and "heap_property (compare q) (heap q)"
  shows "heap_property (compare q) (heap (snd (pop q)))"
  using assms
  by (simp add: pop_def isEmpty_def Let_def pop_heap_property butlast_heap_property)

lemma replace_invariant:
  assumes "consistent_comparator (compare q)" and "heap_property (compare q) (heap q)"
  shows "heap_property (compare q) (heap (snd (replace q v)))"
proof (cases "isEmpty q")
  case True
  with push_invariant[OF assms, of v] show ?thesis by (simp add: replace_def)
next
  case False
  with assms show ?thesis by (simp add: replace_def Let_def replace_heap_property)
qed

lemma pushPop_invariant:
  assumes "consistent_comparator (compare q)" and "heap_property (compare q) (heap q)"
  shows "heap_property (compare q) (heap (snd (pushPop q v)))"
  using assms by (simp add: pushPop_def replace_invariant)

lemma merge_invariant:
  assumes "consistent_comparator (compare q)"
  shows "heap_property (compare q) (heap (fst (merge q other)))"
  using assms by (simp add: merge_eq heapify_heap_property)

text \<open>What \<^verbatim>\<open>remove\<close> does, by the place of the first match.\<close>

lemma getParentIndex_nonneg: "0 \<le> i \<Longrightarrow> 0 \<le> getParentIndex i \<longleftrightarrow> 0 < nat i"
  unfolding getParentIndex_def by (cases "i = 0") auto

lemma remove_absent: "v \<notin> set (heap q) \<Longrightarrow> remove q v = (False, q)"
  by (simp add: remove_def indexOf_notin)

lemma remove_last:
  assumes "v \<in> set (heap q)" and "nat (indexOf (heap q) v) = length (heap q) - 1"
  shows "remove q v = (True, q\<lparr>heap := butlast (heap q)\<rparr>)"
proof -
  from indexOf_found(1,2)[OF assms(1)] assms(2)
  have "indexOf (heap q) v = int (length (heap q)) - 1" by linarith
  moreover from assms(1) have "indexOf (heap q) v \<noteq> - 1" by (simp add: indexOf_notin)
  ultimately show ?thesis by (simp add: remove_def)
qed

lemma remove_inner:
  assumes v: "v \<in> set (heap q)" and idx: "idx = nat (indexOf (heap q) v)"
    and inner: "idx < length (heap q) - 1"
  shows "remove q v =
     (True, q\<lparr>heap :=
        (if 0 < idx \<and> compare q (last (heap q)) (heap q ! parent idx) < 0
         then bubbleUp (compare q) ((butlast (heap q))[idx := last (heap q)]) idx
         else bubbleDown (compare q) ((butlast (heap q))[idx := last (heap q)]) idx)\<rparr>)"
proof -
  let ?h = "heap q" and ?i = "indexOf (heap q) v"
  let ?g = "(butlast ?h)[idx := last ?h]"
  from v have n1: "?i \<noteq> - 1" by (simp add: indexOf_notin)
  from indexOf_found(1)[OF v] have i0: "0 \<le> ?i" .
  from inner idx i0 have n2: "?i \<noteq> int (length ?h) - 1" by linarith
  have g_idx: "?g ! idx = last ?h" using inner by simp
  have g_par: "?g ! nat (getParentIndex ?i) = ?h ! parent idx" if "0 < idx"
  proof -
    have "nat (getParentIndex ?i) = parent idx"
      using nat_getParentIndex[OF that] i0 idx by simp
    moreover have "parent idx < idx" using that by (rule parent_less)
    ultimately show ?thesis using inner by (simp add: nth_butlast)
  qed
  have "(0 \<le> getParentIndex ?i \<and> compare q (?g ! nat ?i) (?g ! nat (getParentIndex ?i)) < 0)
        \<longleftrightarrow> (0 < idx \<and> compare q (last ?h) (?h ! parent idx) < 0)"
    using getParentIndex_nonneg[OF i0] g_idx g_par idx by auto
  then show ?thesis
    using n1 n2 idx unfolding remove_def Let_def by simp
qed

lemma remove_invariant:
  assumes ok: "consistent_comparator (compare q)" and hp: "heap_property (compare q) (heap q)"
  shows "heap_property (compare q) (heap (snd (remove q v)))"
proof (cases "v \<in> set (heap q)")
  case False
  with hp show ?thesis by (simp add: remove_absent)
next
  case True
  define idx where "idx = nat (indexOf (heap q) v)"
  from indexOf_found(2)[OF True] have "idx < length (heap q)" by (simp add: idx_def)
  then consider "idx = length (heap q) - 1" | "idx < length (heap q) - 1" by linarith
  then show ?thesis
  proof cases
    case 1
    with True hp show ?thesis by (simp add: remove_last idx_def butlast_heap_property)
  next
    case 2
    show ?thesis
      using remove_up_heap_property[OF ok hp 2] remove_down_heap_property[OF ok hp 2]
      by (auto simp: remove_inner[OF True idx_def 2])
  qed
qed

lemma consistent_minus: "consistent_comparator (\<lambda>a b :: int. a - b)"
  by (simp add: consistent_comparator_def)

lemma consistent_minus_flipped: "consistent_comparator (\<lambda>a b :: int. b - a)"
  by (simp add: consistent_comparator_def)

subsection \<open>Popping until empty\<close>

lemma pop_nonempty_fst: "heap q \<noteq> [] \<Longrightarrow> fst (pop q) = Some (heap q ! 0)"
  by (cases "heap q") (auto simp: pop_def isEmpty_def Let_def)

lemma pop_snd: "snd (pop q) = q\<lparr>heap := heap (snd (pop q))\<rparr>"
  by (simp add: pop_def Let_def)

lemma mset_pop:
  assumes "heap q \<noteq> []"
  shows "add_mset (heap q ! 0) (mset (heap (snd (pop q)))) = mset (heap q)"
proof (cases "length (heap q) = 1")
  case True
  then obtain x where "heap q = [x]" by (cases "heap q") auto
  then show ?thesis by (simp add: pop_def isEmpty_def)
next
  case False
  from assms have "0 < length (heap q)" by simp
  with False have n: "2 \<le> length (heap q)" by linarith
  let ?h = "heap q"
  have b: "butlast ?h \<noteq> []" using n by (cases ?h) auto
  then have bl: "0 < length (butlast ?h)" by (simp del: length_butlast)
  then have "butlast ?h ! 0 = ?h ! 0" by (rule nth_butlast)
  moreover have "butlast ?h ! 0 \<in> set (butlast ?h)" using bl by (rule nth_mem)
  then have "butlast ?h ! 0 \<in># mset (butlast ?h)" by simp
  ultimately have 1: "add_mset (?h ! 0) (mset (butlast ?h) - {#butlast ?h ! 0#}) = mset (butlast ?h)"
    by simp
  have "mset (butlast ?h @ [last ?h]) = add_mset (last ?h) (mset (butlast ?h))" by simp
  then have 2: "mset ?h = add_mset (last ?h) (mset (butlast ?h))"
    using append_butlast_last_id[OF assms] by simp
  have "heap (snd (pop q)) = bubbleDown (compare q) ((butlast ?h)[0 := last ?h]) 0"
    using assms False by (simp add: pop_def isEmpty_def Let_def)
  moreover have "mset ((butlast ?h)[0 := last ?h])
      = add_mset (last ?h) (mset (butlast ?h) - {#butlast ?h ! 0#})"
    using bl by (rule mset_update)
  ultimately have "mset (heap (snd (pop q)))
      = add_mset (last ?h) (mset (butlast ?h) - {#butlast ?h ! 0#})"
    by simp
  with 1 2 show ?thesis by simp
qed

lemma toSortedArray_loop_empty: "heap q = [] \<Longrightarrow> toSortedArray_loop q acc = (acc, q)"
  by (subst toSortedArray_loop.simps) simp

lemma toSortedArray_loop_step:
  "heap q \<noteq> [] \<Longrightarrow>
   toSortedArray_loop q acc = toSortedArray_loop (snd (pop q)) (acc @ [heap q ! 0])"
  by (subst toSortedArray_loop.simps) (simp add: pop_nonempty_fst)

lemma length_pop_less: "heap q \<noteq> [] \<Longrightarrow> length (heap (snd (pop q))) < length (heap q)"
  by (simp add: length_pop)

lemma toSortedArray_loop_acc:
  "fst (toSortedArray_loop q acc) = acc @ fst (toSortedArray_loop q [])"
proof (induction "length (heap q)" arbitrary: q acc rule: less_induct)
  case less
  show ?case
  proof (cases "heap q = []")
    case True
    then show ?thesis by (simp add: toSortedArray_loop_empty)
  next
    case False
    note IH = less.hyps[OF length_pop_less[OF False]]
    have "fst (toSortedArray_loop q acc)
        = (acc @ [heap q ! 0]) @ fst (toSortedArray_loop (snd (pop q)) [])"
      using IH[of "acc @ [heap q ! 0]"] False by (simp add: toSortedArray_loop_step)
    moreover have "fst (toSortedArray_loop q [])
        = [heap q ! 0] @ fst (toSortedArray_loop (snd (pop q)) [])"
      using IH[of "[heap q ! 0]"] False by (simp add: toSortedArray_loop_step)
    ultimately show ?thesis by simp
  qed
qed

lemma toSortedArray_loop_snd: "snd (toSortedArray_loop q acc) = q\<lparr>heap := []\<rparr>"
proof (induction "length (heap q)" arbitrary: q acc rule: less_induct)
  case less
  show ?case
  proof (cases "heap q = []")
    case True
    then show ?thesis by (simp add: toSortedArray_loop_empty)
  next
    case False
    from less.hyps[OF length_pop_less[OF False], of "acc @ [heap q ! 0]"]
    have "snd (toSortedArray_loop q acc) = (snd (pop q))\<lparr>heap := []\<rparr>"
      using False by (simp add: toSortedArray_loop_step)
    also have "\<dots> = q\<lparr>heap := []\<rparr>" by (subst pop_snd) simp
    finally show ?thesis .
  qed
qed

lemma drain_empty: "heap q = [] \<Longrightarrow> drain q = []"
  by (simp add: drain_def toSortedArray_loop_empty)

lemma drain_step: "heap q \<noteq> [] \<Longrightarrow> drain q = heap q ! 0 # drain (snd (pop q))"
  unfolding drain_def
  using toSortedArray_loop_acc[of "snd (pop q)" "[heap q ! 0]"]
  by (simp add: toSortedArray_loop_step)

lemma mset_drain: "mset (drain q) = mset (heap q)"
proof (induction "length (heap q)" arbitrary: q rule: less_induct)
  case less
  show ?case
  proof (cases "heap q = []")
    case True
    then show ?thesis by (simp add: drain_empty)
  next
    case False
    from less.hyps[OF length_pop_less[OF False]] mset_pop[OF False]
    show ?thesis using False by (simp add: drain_step)
  qed
qed

lemma sorted_drain:
  assumes ok: "consistent_comparator cmp"
  shows "compare q = cmp \<Longrightarrow> heap_property cmp (heap q)
         \<Longrightarrow> sorted_wrt (\<lambda>a b. cmp a b \<le> 0) (drain q)"
proof (induction "length (heap q)" arbitrary: q rule: less_induct)
  case less
  show ?case
  proof (cases "heap q = []")
    case True
    then show ?thesis by (simp add: drain_empty)
  next
    case False
    have hp': "heap_property cmp (heap (snd (pop q)))"
      using pop_invariant[of q] ok less.prems by simp
    have tail: "sorted_wrt (\<lambda>a b. cmp a b \<le> 0) (drain (snd (pop q)))"
      using less.hyps[OF length_pop_less[OF False]] less.prems(1) hp' by simp
    have "cmp (heap q ! 0) x \<le> 0" if "x \<in> set (drain (snd (pop q)))" for x
    proof -
      from that have "x \<in># mset (heap (snd (pop q)))" by (simp add: mset_drain[symmetric])
      then have "x \<in># add_mset (heap q ! 0) (mset (heap (snd (pop q))))" by simp
      then have "x \<in># mset (heap q)" by (simp only: mset_pop[OF False])
      then show ?thesis using root_least[OF ok less.prems(2)] by simp
    qed
    with tail show ?thesis using False by (simp add: drain_step)
  qed
qed

text \<open>Ascending and descending, read through a numeric key.\<close>

lemma drain_ascending:
  assumes cmp: "\<And>a b. compare q a b = key a - key b"
    and hp: "heap_property (compare q) (heap q)"
  shows "sorted (map key (drain q))"
proof -
  have "consistent_comparator (compare q)"
    unfolding consistent_comparator_def by (simp add: cmp)
  from sorted_drain[OF this refl hp]
  have "sorted_wrt (\<lambda>a b. key a \<le> key b) (drain q)" by (simp add: cmp)
  then show ?thesis by (simp add: sorted_map)
qed

lemma drain_descending:
  assumes cmp: "\<And>a b. compare q a b = key b - key a"
    and hp: "heap_property (compare q) (heap q)"
  shows "sorted (rev (map key (drain q)))"
proof -
  have "consistent_comparator (compare q)"
    unfolding consistent_comparator_def by (simp add: cmp)
  from sorted_drain[OF this refl hp]
  have "sorted_wrt (\<lambda>a b. key b \<le> key a) (drain q)" by (simp add: cmp)
  then show ?thesis by (simp add: sorted_wrt_rev sorted_wrt_map)
qed

lemma drain_min:
  fixes q :: "int PriorityQueue"
  assumes "compare q = (\<lambda>a b. a - b)" and "heap_property (compare q) (heap q)"
  shows "drain q = sort (heap q)"
proof -
  have "sorted (map (\<lambda>x. x) (drain q))"
    using assms by (intro drain_ascending) simp_all
  then have "sorted (drain q)" by simp
  with mset_drain[of q] show ?thesis by (simp add: properties_for_sort)
qed

lemma drain_max:
  fixes q :: "int PriorityQueue"
  assumes "compare q = (\<lambda>a b. b - a)" and "heap_property (compare q) (heap q)"
  shows "drain q = rev (sort (heap q))"
proof -
  have "sorted (rev (map (\<lambda>x. x) (drain q)))"
    using assms by (intro drain_descending) simp_all
  then have "sorted (rev (drain q))" by simp
  moreover have "mset (rev (drain q)) = mset (heap q)" by (simp add: mset_drain)
  ultimately have "sort (heap q) = rev (drain q)" by (simp add: properties_for_sort)
  then show ?thesis by simp
qed

subsection \<open>Pushing a sequence of values\<close>

lemma mset_push: "mset (heap (snd (push q v))) = add_mset v (mset (heap q))"
  by (simp add: heap_push mset_bubbleUp)

lemma compare_push_all [simp]: "compare (push_all q vs) = compare q"
  by (induction vs arbitrary: q) simp_all

lemma mset_push_all: "mset (heap (push_all q vs)) = mset (heap q) + mset vs"
  by (induction vs arbitrary: q) (simp_all add: mset_push)

lemma push_all_invariant:
  "consistent_comparator (compare q) \<Longrightarrow> heap_property (compare q) (heap q)
   \<Longrightarrow> heap_property (compare q) (heap (push_all q vs))"
proof (induction vs arbitrary: q)
  case Nil
  then show ?case by simp
next
  case (Cons v vs)
  from Cons.IH[of "snd (push q v)"] Cons.prems push_invariant[of q v]
  show ?case by simp
qed

section \<open>The claims\<close>

text \<open>
  C1. Heap-property invariant: in every state of a queue that calls of the public interface
  can produce (construction, \<^verbatim>\<open>push\<close>, \<^verbatim>\<open>pop\<close>, \<^verbatim>\<open>remove\<close>, \<^verbatim>\<open>replace\<close>, \<^verbatim>\<open>pushPop\<close>,
  \<^verbatim>\<open>merge\<close>, \<^verbatim>\<open>clear\<close>, \<^verbatim>\<open>toSortedArray\<close>), every index \<open>i\<close> and each of its children
  \<open>c\<close> among \<open>2i+1\<close>, \<open>2i+2\<close> inside the array satisfy \<open>compare (heap ! i) (heap ! c) \<le> 0\<close>.
  The comparator is one that obeys the contract of the data model (a total order given by
  sign).
\<close>

theorem heap_property_invariant:
  assumes "reachable q" and "consistent_comparator (compare q)"
  shows "heap_property (compare q) (heap q)"
  using assms
proof (induction rule: reachable.induct)
  case (r_new minus_any options)
  then show ?case by (rule new_invariant)
next
  case (r_push q v)
  then show ?case using push_invariant[of q v] by simp
next
  case (r_pop q)
  then show ?case using pop_invariant[of q] by simp
next
  case (r_remove q v)
  then show ?case using remove_invariant[of q v] by simp
next
  case (r_replace q v)
  then show ?case using replace_invariant[of q v] by simp
next
  case (r_pushPop q v)
  then show ?case using pushPop_invariant[of q v] by simp
next
  case (r_merge q other)
  then show ?case using merge_invariant[of q other] by (simp add: merge_eq)
next
  case (r_merge_other q other)
  then show ?case by (simp add: merge_eq)
next
  case (r_merge_self q q')
  then show ?case by (auto dest: merge_self_Some)
next
  case (r_clear q)
  then show ?case by (simp add: clear_def)
next
  case (r_toSortedArray q)
  then show ?case by simp
qed

theorem heap_property_invariant_witness:
  "reachable (snd (remove (snd (push (PriorityQueue_new (-)
       \<lparr>comparator = None, heapType = None, initialValues = Some [5, 3, 7, 1, 9, 2 :: int]\<rparr>) 4)) 3))
   \<and> heap (snd (remove (snd (push (PriorityQueue_new (-)
       \<lparr>comparator = None, heapType = None, initialValues = Some [5, 3, 7, 1, 9, 2 :: int]\<rparr>) 4)) 3))
     = [1, 4, 2, 5, 9, 7]
   \<and> heap_property
       (compare (snd (remove (snd (push (PriorityQueue_new (-)
          \<lparr>comparator = None, heapType = None, initialValues = Some [5, 3, 7, 1, 9, 2 :: int]\<rparr>) 4)) 3)))
       (heap (snd (remove (snd (push (PriorityQueue_new (-)
          \<lparr>comparator = None, heapType = None, initialValues = Some [5, 3, 7, 1, 9, 2 :: int]\<rparr>) 4)) 3)))"
proof -
  let ?q = "snd (remove (snd (push (PriorityQueue_new (-)
       \<lparr>comparator = None, heapType = None, initialValues = Some [5, 3, 7, 1, 9, 2 :: int]\<rparr>) 4)) 3)"
  have r: "reachable ?q" by (intro reachable.intros)
  have c: "consistent_comparator (compare ?q)"
    by (simp add: compare_new consistent_minus)
  have h: "heap ?q = [1, 4, 2, 5, 9, 7]" by code_simp
  from r h heap_property_invariant[OF r c] show ?thesis by blast
qed

lemma push_all_fresh_min:
  fixes xs :: "int list"
  assumes "t = None \<or> t = Some MinHeap"
  shows "drain (push_all (PriorityQueue_new (-)
            \<lparr>comparator = None, heapType = t, initialValues = None\<rparr>) xs) = sort xs"
proof -
  let ?q = "PriorityQueue_new (-) \<lparr>comparator = None, heapType = t, initialValues = None\<rparr>"
  have c: "compare ?q = (\<lambda>a b. a - b)" using assms by (auto simp: compare_new)
  have h: "heap ?q = []" by (simp add: heap_new)
  have "heap_property (compare (push_all ?q xs)) (heap (push_all ?q xs))"
    using push_all_invariant[of ?q xs] c h consistent_minus by simp
  then have "drain (push_all ?q xs) = sort (heap (push_all ?q xs))"
    using c by (intro drain_min) simp_all
  also have "\<dots> = sort xs"
    using mset_push_all[of ?q xs] h by (intro properties_for_sort) simp_all
  finally show ?thesis .
qed

lemma push_all_fresh_max:
  fixes xs :: "int list"
  shows "drain (push_all (PriorityQueue_new (-)
            \<lparr>comparator = None, heapType = Some MaxHeap, initialValues = None\<rparr>) xs)
         = rev (sort xs)"
proof -
  let ?q = "PriorityQueue_new (-)
     \<lparr>comparator = None, heapType = Some MaxHeap, initialValues = None\<rparr>"
  have c: "compare ?q = (\<lambda>a b. b - a)" by (simp add: compare_new)
  have h: "heap ?q = []" by (simp add: heap_new)
  have "heap_property (compare (push_all ?q xs)) (heap (push_all ?q xs))"
    using push_all_invariant[of ?q xs] c h consistent_minus_flipped by simp
  then have "drain (push_all ?q xs) = rev (sort (heap (push_all ?q xs)))"
    using c by (intro drain_max) simp_all
  also have "sort (heap (push_all ?q xs)) = sort xs"
    using mset_push_all[of ?q xs] h by (intro properties_for_sort) simp_all
  finally show ?thesis .
qed

lemma sort_of_permutation:
  fixes xs ys :: "int list"
  shows "mset xs = mset ys \<Longrightarrow> sorted ys \<Longrightarrow> sort xs = ys"
  by (rule properties_for_sort) simp_all

text \<open>
  C2. Pop order is a full sort: whatever permutation of 9, 8, ..., 1 is pushed into a fresh
  queue, popping until empty yields 1, ..., 9 under min semantics (the default and the
  explicit \<^verbatim>\<open>"min"\<close>) and 9, ..., 1 under max semantics; a min queue constructed from
  the initial values 5, 3, 7, 1, 9, 2 has \<^verbatim>\<open>peek() = 1\<close> and pops 1, 2, 3, 5, 7, 9.
\<close>

theorem pop_order_full_sort:
  assumes "mset xs = mset [9, 8, 7, 6, 5, 4, 3, 2, 1 :: int]"
  shows "drain (push_all (PriorityQueue_new (-)
            \<lparr>comparator = None, heapType = None, initialValues = None\<rparr>) xs)
           = [1, 2, 3, 4, 5, 6, 7, 8, 9]
       \<and> drain (push_all (PriorityQueue_new (-)
            \<lparr>comparator = None, heapType = Some MinHeap, initialValues = None\<rparr>) xs)
           = [1, 2, 3, 4, 5, 6, 7, 8, 9]
       \<and> drain (push_all (PriorityQueue_new (-)
            \<lparr>comparator = None, heapType = Some MaxHeap, initialValues = None\<rparr>) xs)
           = [9, 8, 7, 6, 5, 4, 3, 2, 1]
       \<and> peek (PriorityQueue_new (-)
            \<lparr>comparator = None, heapType = None, initialValues = Some [5, 3, 7, 1, 9, 2 :: int]\<rparr>)
           = Some 1
       \<and> drain (PriorityQueue_new (-)
            \<lparr>comparator = None, heapType = None, initialValues = Some [5, 3, 7, 1, 9, 2 :: int]\<rparr>)
           = [1, 2, 3, 5, 7, 9]"
proof -
  have s: "sort xs = [1, 2, 3, 4, 5, 6, 7, 8, 9]"
    using assms by (intro sort_of_permutation) simp_all
  have 1: "drain (push_all (PriorityQueue_new (-)
            \<lparr>comparator = None, heapType = None, initialValues = None\<rparr>) xs)
           = [1, 2, 3, 4, 5, 6, 7, 8, 9]"
    by (simp add: push_all_fresh_min s)
  have 2: "drain (push_all (PriorityQueue_new (-)
            \<lparr>comparator = None, heapType = Some MinHeap, initialValues = None\<rparr>) xs)
           = [1, 2, 3, 4, 5, 6, 7, 8, 9]"
    by (simp add: push_all_fresh_min s)
  have 3: "drain (push_all (PriorityQueue_new (-)
            \<lparr>comparator = None, heapType = Some MaxHeap, initialValues = None\<rparr>) xs)
           = [9, 8, 7, 6, 5, 4, 3, 2, 1]"
    by (simp add: push_all_fresh_max s)
  have 4: "peek (PriorityQueue_new (-)
            \<lparr>comparator = None, heapType = None, initialValues = Some [5, 3, 7, 1, 9, 2 :: int]\<rparr>)
           = Some 1"
    by code_simp
  have 5: "drain (PriorityQueue_new (-)
            \<lparr>comparator = None, heapType = None, initialValues = Some [5, 3, 7, 1, 9, 2 :: int]\<rparr>)
           = [1, 2, 3, 5, 7, 9]"
    by code_simp
  from 1 2 3 4 5 show ?thesis by blast
qed

theorem pop_order_full_sort_witness:
  "drain (push_all (PriorityQueue_new (-)
      \<lparr>comparator = None, heapType = None, initialValues = None\<rparr>)
      [4, 9, 2, 7, 5, 1, 8, 3, 6 :: int])
     = [1, 2, 3, 4, 5, 6, 7, 8, 9]
   \<and> drain (push_all (PriorityQueue_new (-)
      \<lparr>comparator = None, heapType = Some MaxHeap, initialValues = None\<rparr>)
      [4, 9, 2, 7, 5, 1, 8, 3, 6 :: int])
     = [9, 8, 7, 6, 5, 4, 3, 2, 1]"
proof -
  have "mset [4, 9, 2, 7, 5, 1, 8, 3, 6 :: int] = mset [9, 8, 7, 6, 5, 4, 3, 2, 1]"
    by simp
  from pop_order_full_sort[OF this] show ?thesis by blast
qed

text \<open>
  C3. Queries on an empty queue are results, not faults: \<^verbatim>\<open>pop\<close> and \<^verbatim>\<open>peek\<close> give the
  "no value" result and leave the queue as it is, \<^verbatim>\<open>replace\<close> inserts the value by
  \<^verbatim>\<open>push\<close> and gives "no previous value"; on a queue of one element \<^verbatim>\<open>pop\<close> removes
  and returns that element and the queue is empty afterwards.
\<close>

theorem empty_queries_are_results:
  "(heap q = [] \<longrightarrow>
      pop q = (None, q) \<and> peek q = None \<and>
      replace q v = (None, snd (push q v)) \<and> heap (snd (replace q v)) = [v]) \<and>
   (heap q = [x] \<longrightarrow>
      pop q = (Some x, q\<lparr>heap := []\<rparr>) \<and> isEmpty (snd (pop q)))"
  by (simp add: pop_def peek_def replace_def isEmpty_def heap_push bubbleUp_root)

theorem empty_queries_are_results_witness:
  "pop (PriorityQueue_new (-) \<lparr>comparator = None, heapType = None, initialValues = None\<rparr>)
     = (None, PriorityQueue_new (-) \<lparr>comparator = None, heapType = None, initialValues = None\<rparr>)
   \<and> peek (PriorityQueue_new (-) \<lparr>comparator = None, heapType = None, initialValues = None\<rparr>)
     = (None :: int option)
   \<and> heap (snd (replace (PriorityQueue_new (-)
        \<lparr>comparator = None, heapType = None, initialValues = None\<rparr>) (5 :: int))) = [5]
   \<and> pop (PriorityQueue_new (-)
        \<lparr>comparator = None, heapType = None, initialValues = Some [42 :: int]\<rparr>)
     = (Some 42, (PriorityQueue_new (-)
        \<lparr>comparator = None, heapType = None, initialValues = Some [42 :: int]\<rparr>)\<lparr>heap := []\<rparr>)
   \<and> isEmpty (snd (pop (PriorityQueue_new (-)
        \<lparr>comparator = None, heapType = None, initialValues = Some [42 :: int]\<rparr>)))"
proof -
  let ?e = "PriorityQueue_new (-) \<lparr>comparator = None, heapType = None, initialValues = None\<rparr>
              :: int PriorityQueue"
  let ?s = "PriorityQueue_new (-)
              \<lparr>comparator = None, heapType = None, initialValues = Some [42 :: int]\<rparr>"
  have e: "heap ?e = []" by (simp add: heap_new)
  have s: "heap ?s = [42]" by code_simp
  from empty_queries_are_results[of ?e 5 42] e
    empty_queries_are_results[of ?s 5 42] s
  show ?thesis by blast
qed


lemma toSortedArray_fst: "fst (toSortedArray q) = drain q"
  by (simp add: toSortedArray_def drain_def Let_def)

lemma toSortedArray_snd: "snd (toSortedArray q) = q"
  by (simp add: toSortedArray_def Let_def toSortedArray_loop_snd)

text \<open>
  C4. \<^verbatim>\<open>toSortedArray\<close> returns the elements of the heap sorted by the comparator
  (ascending in the key of a min comparator, descending in the key of a max comparator),
  and the queue after the call is the queue before it: the same backing sequence in the
  same arrangement, hence the same \<^verbatim>\<open>peek()\<close> and \<^verbatim>\<open>size\<close>.
\<close>

theorem toSortedArray_sorted_and_restores:
  "snd (toSortedArray q) = q \<and>
   heap (snd (toSortedArray q)) = heap q \<and>
   peek (snd (toSortedArray q)) = peek q \<and>
   size_pq (snd (toSortedArray q)) = size_pq q \<and>
   mset (fst (toSortedArray q)) = mset (heap q) \<and>
   (consistent_comparator (compare q) \<and> heap_property (compare q) (heap q) \<longrightarrow>
      sorted_wrt (\<lambda>a b. compare q a b \<le> 0) (fst (toSortedArray q))) \<and>
   (heap_property (compare q) (heap q) \<longrightarrow>
      (\<forall>key. (\<forall>a b. compare q a b = key a - key b) \<longrightarrow>
          sorted (map key (fst (toSortedArray q)))) \<and>
      (\<forall>key. (\<forall>a b. compare q a b = key b - key a) \<longrightarrow>
          sorted (rev (map key (fst (toSortedArray q))))))"
proof -
  have "consistent_comparator (compare q) \<and> heap_property (compare q) (heap q) \<longrightarrow>
      sorted_wrt (\<lambda>a b. compare q a b \<le> 0) (fst (toSortedArray q))"
    using sorted_drain[of "compare q" q] by (simp add: toSortedArray_fst)
  moreover have "heap_property (compare q) (heap q) \<longrightarrow>
      (\<forall>key. (\<forall>a b. compare q a b = key a - key b) \<longrightarrow>
          sorted (map key (fst (toSortedArray q))))"
    using drain_ascending[of q] by (simp add: toSortedArray_fst)
  moreover have "heap_property (compare q) (heap q) \<longrightarrow>
      (\<forall>key. (\<forall>a b. compare q a b = key b - key a) \<longrightarrow>
          sorted (rev (map key (fst (toSortedArray q)))))"
    using drain_descending[of q] by (simp add: toSortedArray_fst)
  ultimately show ?thesis
    by (simp add: toSortedArray_snd toSortedArray_fst mset_drain)
qed

theorem toSortedArray_sorted_and_restores_witness:
  "fst (toSortedArray (PriorityQueue_new (-)
      \<lparr>comparator = None, heapType = None, initialValues = Some [5, 3, 7, 1, 9, 2 :: int]\<rparr>))
     = [1, 2, 3, 5, 7, 9]
   \<and> sorted (map (\<lambda>x. x) (fst (toSortedArray (PriorityQueue_new (-)
      \<lparr>comparator = None, heapType = None, initialValues = Some [5, 3, 7, 1, 9, 2 :: int]\<rparr>))))
   \<and> heap (snd (toSortedArray (PriorityQueue_new (-)
      \<lparr>comparator = None, heapType = None, initialValues = Some [5, 3, 7, 1, 9, 2 :: int]\<rparr>)))
     = [1, 3, 2, 5, 9, 7]
   \<and> fst (toSortedArray (PriorityQueue_new (-)
      \<lparr>comparator = None, heapType = Some MaxHeap,
        initialValues = Some [5, 3, 7, 1, 9, 2 :: int]\<rparr>))
     = [9, 7, 5, 3, 2, 1]
   \<and> sorted (rev (map (\<lambda>x. x) (fst (toSortedArray (PriorityQueue_new (-)
      \<lparr>comparator = None, heapType = Some MaxHeap,
        initialValues = Some [5, 3, 7, 1, 9, 2 :: int]\<rparr>)))))"
proof -
  let ?q = "PriorityQueue_new (-)
      \<lparr>comparator = None, heapType = None, initialValues = Some [5, 3, 7, 1, 9, 2 :: int]\<rparr>"
  let ?m = "PriorityQueue_new (-)
      \<lparr>comparator = None, heapType = Some MaxHeap,
        initialValues = Some [5, 3, 7, 1, 9, 2 :: int]\<rparr>"
  have hq: "heap ?q = [1, 3, 2, 5, 9, 7]" by code_simp
  have cq: "\<forall>a b. compare ?q a b = (\<lambda>x. x) a - (\<lambda>x. x) b" by (simp add: compare_new)
  have pq: "heap_property (compare ?q) (heap ?q)"
    by (intro new_invariant) (simp add: compare_new consistent_minus)
  have cm: "\<forall>a b. compare ?m a b = (\<lambda>x. x) b - (\<lambda>x. x) a" by (simp add: compare_new)
  have pm: "heap_property (compare ?m) (heap ?m)"
    by (intro new_invariant) (simp add: compare_new consistent_minus_flipped)
  have 1: "fst (toSortedArray ?q) = [1, 2, 3, 5, 7, 9]" by code_simp
  have 2: "fst (toSortedArray ?m) = [9, 7, 5, 3, 2, 1]" by code_simp
  note q = toSortedArray_sorted_and_restores[of ?q]
  note m = toSortedArray_sorted_and_restores[of ?m]
  from q have "heap_property (compare ?q) (heap ?q) \<longrightarrow>
      (\<forall>key. (\<forall>a b. compare ?q a b = key a - key b) \<longrightarrow>
          sorted (map key (fst (toSortedArray ?q)))) \<and>
      (\<forall>key. (\<forall>a b. compare ?q a b = key b - key a) \<longrightarrow>
          sorted (rev (map key (fst (toSortedArray ?q)))))"
    by (elim conjE)
  with pq have "\<forall>key. (\<forall>a b. compare ?q a b = key a - key b) \<longrightarrow>
          sorted (map key (fst (toSortedArray ?q)))"
    by (elim impE conjE)
  from this[THEN spec, of "\<lambda>x. x", THEN mp, OF cq]
  have 3: "sorted (map (\<lambda>x. x) (fst (toSortedArray ?q)))" .
  from q have "heap (snd (toSortedArray ?q)) = heap ?q" by (elim conjE)
  with hq have 4: "heap (snd (toSortedArray ?q)) = [1, 3, 2, 5, 9, 7]" by simp
  from m have "heap_property (compare ?m) (heap ?m) \<longrightarrow>
      (\<forall>key. (\<forall>a b. compare ?m a b = key a - key b) \<longrightarrow>
          sorted (map key (fst (toSortedArray ?m)))) \<and>
      (\<forall>key. (\<forall>a b. compare ?m a b = key b - key a) \<longrightarrow>
          sorted (rev (map key (fst (toSortedArray ?m)))))"
    by (elim conjE)
  with pm have "\<forall>key. (\<forall>a b. compare ?m a b = key b - key a) \<longrightarrow>
          sorted (rev (map key (fst (toSortedArray ?m))))"
    by (elim impE conjE)
  from this[THEN spec, of "\<lambda>x. x", THEN mp, OF cm]
  have 5: "sorted (rev (map (\<lambda>x. x) (fst (toSortedArray ?m))))" .
  from 1 2 3 4 5 show ?thesis by blast
qed

lemma replace_nonempty:
  "heap q \<noteq> [] \<Longrightarrow>
   replace q v = (Some (heap q ! 0), q\<lparr>heap := bubbleDown (compare q) ((heap q)[0 := v]) 0\<rparr>)"
  by (simp add: replace_def isEmpty_def Let_def)

lemma mset_replace:
  "heap q \<noteq> [] \<Longrightarrow>
   mset (heap (snd (replace q v))) = add_mset v (mset (heap q) - {#heap q ! 0#})"
  by (simp add: replace_nonempty mset_update)

text \<open>
  C5. \<^verbatim>\<open>pushPop(value)\<close>: on an empty heap, or when \<open>compare value top < 0\<close>, it returns the
  value and the queue is untouched. Otherwise it is \<^verbatim>\<open>replace(value)\<close>: it returns the
  former top, and the heap afterwards is the old array with the value written into slot 0
  and sunk by \<^verbatim>\<open>bubbleDown\<close>, so it holds the value in place of one occurrence of the
  former top, and it has the heap property when the heap had it before. In every case the
  size after the call is the size before it.
\<close>

theorem pushPop_behaviour:
  "(isEmpty q \<or> compare q v (heap q ! 0) < 0 \<longrightarrow> pushPop q v = (Some v, q)) \<and>
   (\<not> isEmpty q \<and> \<not> compare q v (heap q ! 0) < 0 \<longrightarrow>
      pushPop q v = replace q v \<and> fst (pushPop q v) = Some (heap q ! 0) \<and>
      snd (pushPop q v) = q\<lparr>heap := bubbleDown (compare q) ((heap q)[0 := v]) 0\<rparr> \<and>
      mset (heap (snd (pushPop q v))) = add_mset v (mset (heap q) - {#heap q ! 0#}) \<and>
      (consistent_comparator (compare q) \<and> heap_property (compare q) (heap q) \<longrightarrow>
         heap_property (compare q) (heap (snd (pushPop q v))))) \<and>
   size_pq (snd (pushPop q v)) = size_pq q"
proof -
  have fast: "isEmpty q \<or> compare q v (heap q ! 0) < 0 \<longrightarrow> pushPop q v = (Some v, q)"
    by (simp add: pushPop_def)
  have slow: "pushPop q v = replace q v \<and> fst (pushPop q v) = Some (heap q ! 0) \<and>
      snd (pushPop q v) = q\<lparr>heap := bubbleDown (compare q) ((heap q)[0 := v]) 0\<rparr> \<and>
      mset (heap (snd (pushPop q v))) = add_mset v (mset (heap q) - {#heap q ! 0#}) \<and>
      (consistent_comparator (compare q) \<and> heap_property (compare q) (heap q) \<longrightarrow>
         heap_property (compare q) (heap (snd (pushPop q v))))"
    if c: "\<not> isEmpty q \<and> \<not> compare q v (heap q ! 0) < 0"
  proof -
    from c have ne: "heap q \<noteq> []" by (simp add: isEmpty_def)
    from c have e: "pushPop q v = replace q v" by (simp add: pushPop_def)
    note r = replace_nonempty[OF ne, of v]
    have 1: "fst (pushPop q v) = Some (heap q ! 0)" by (simp add: e r)
    have 2: "snd (pushPop q v) = q\<lparr>heap := bubbleDown (compare q) ((heap q)[0 := v]) 0\<rparr>"
      by (simp add: e r)
    have 3: "mset (heap (snd (pushPop q v))) = add_mset v (mset (heap q) - {#heap q ! 0#})"
      using mset_replace[OF ne, of v] by (simp add: e)
    have 4: "consistent_comparator (compare q) \<and> heap_property (compare q) (heap q) \<longrightarrow>
         heap_property (compare q) (heap (snd (pushPop q v)))"
      using pushPop_invariant[of q v] by blast
    from e 1 2 3 4 show ?thesis by blast
  qed
  have size: "size_pq (snd (pushPop q v)) = size_pq q"
    by (simp add: pushPop_def replace_def size_pq_def Let_def)
  from fast slow size show ?thesis by blast
qed

theorem pushPop_behaviour_witness:
  "pushPop (PriorityQueue_new (-)
      \<lparr>comparator = None, heapType = None, initialValues = Some [5, 3, 7, 1, 9 :: int]\<rparr>) 0
     = (Some 0, PriorityQueue_new (-)
      \<lparr>comparator = None, heapType = None, initialValues = Some [5, 3, 7, 1, 9 :: int]\<rparr>)
   \<and> heap (PriorityQueue_new (-)
      \<lparr>comparator = None, heapType = None, initialValues = Some [5, 3, 7, 1, 9 :: int]\<rparr>)
     = [1, 3, 7, 5, 9]
   \<and> fst (pushPop (PriorityQueue_new (-)
      \<lparr>comparator = None, heapType = None, initialValues = Some [5, 3, 7, 1, 9 :: int]\<rparr>) 10)
     = Some 1
   \<and> heap (snd (pushPop (PriorityQueue_new (-)
      \<lparr>comparator = None, heapType = None, initialValues = Some [5, 3, 7, 1, 9 :: int]\<rparr>) 10))
     = [3, 5, 7, 10, 9]
   \<and> mset (heap (snd (pushPop (PriorityQueue_new (-)
      \<lparr>comparator = None, heapType = None, initialValues = Some [5, 3, 7, 1, 9 :: int]\<rparr>) 10)))
     = mset [3, 7, 5, 9, 10]
   \<and> size_pq (snd (pushPop (PriorityQueue_new (-)
      \<lparr>comparator = None, heapType = None, initialValues = Some [5, 3, 7, 1, 9 :: int]\<rparr>) 10))
     = 5"
proof -
  let ?q = "PriorityQueue_new (-)
      \<lparr>comparator = None, heapType = None, initialValues = Some [5, 3, 7, 1, 9 :: int]\<rparr>"
  have h: "heap ?q = [1, 3, 7, 5, 9]" by code_simp
  have c: "compare ?q = (-)" by (simp add: compare_new)
  have d: "bubbleDown (-) [10, 3, 7, 5, 9 :: int] 0 = [3, 5, 7, 10, 9]" by code_simp
  have a: "isEmpty ?q \<or> compare ?q 0 (heap ?q ! 0) < 0" by (simp add: h c)
  have b: "\<not> isEmpty ?q \<and> \<not> compare ?q 10 (heap ?q ! 0) < 0" by (simp add: h c isEmpty_def)
  from pushPop_behaviour[of ?q 0] a
  have 1: "pushPop ?q 0 = (Some 0, ?q)" by blast
  from pushPop_behaviour[of ?q 10] b
  have 2: "fst (pushPop ?q 10) = Some (heap ?q ! 0)"
    and 3: "snd (pushPop ?q 10) = ?q\<lparr>heap := bubbleDown (compare ?q) ((heap ?q)[0 := 10]) 0\<rparr>"
    and 4: "mset (heap (snd (pushPop ?q 10))) = add_mset 10 (mset (heap ?q) - {#heap ?q ! 0#})"
    and 5: "size_pq (snd (pushPop ?q 10)) = size_pq ?q" by blast+
  from 2 h have 2: "fst (pushPop ?q 10) = Some 1" by simp
  from 3 have 3: "heap (snd (pushPop ?q 10)) = [3, 5, 7, 10, 9]" by (simp add: h c d)
  from 4 have 4: "mset (heap (snd (pushPop ?q 10))) = mset [3, 7, 5, 9, 10]" by (simp add: h)
  from 5 h have 5: "size_pq (snd (pushPop ?q 10)) = 5" by (simp add: size_pq_def)
  from 1 h 2 3 4 5 show ?thesis by blast
qed

text \<open>
  C6. \<^verbatim>\<open>remove(value)\<close>: when no element equals the value it returns \<open>False\<close> and the
  queue is unchanged. Otherwise it returns \<open>True\<close>, and with \<open>idx\<close> the index of the first
  match: at the last index only the last slot is dropped; elsewhere the slot \<open>idx\<close> takes
  the last element, the array is one shorter, and then exactly one pass runs from \<open>idx\<close>,
  \<^verbatim>\<open>bubbleUp\<close> when the moved element is strictly before its parent and \<^verbatim>\<open>bubbleDown\<close>
  otherwise. Removing 3 from the min queue built from 5, 3, 7, 1, 9, 2 and popping until
  empty gives 1, 2, 5, 7, 9.
\<close>

theorem remove_behaviour:
  "(v \<notin> set (heap q) \<longrightarrow> remove q v = (False, q)) \<and>
   (v \<in> set (heap q) \<longrightarrow>
      (let h = heap q; idx = nat (indexOf h v); g = (butlast h)[idx := last h] in
         indexOf h v = int idx \<and> idx < length h \<and> h ! idx = v \<and> (\<forall>j<idx. h ! j \<noteq> v) \<and>
         fst (remove q v) = True \<and>
         compare (snd (remove q v)) = compare q \<and>
         (idx = length h - 1 \<longrightarrow> heap (snd (remove q v)) = butlast h) \<and>
         (idx < length h - 1 \<longrightarrow>
            g ! idx = last h \<and>
            length (heap (snd (remove q v))) = length h - 1 \<and>
            heap (snd (remove q v)) =
              (if 0 < idx \<and> compare q (g ! idx) (g ! nat (getParentIndex (int idx))) < 0
               then bubbleUp (compare q) g idx
               else bubbleDown (compare q) g idx)))) \<and>
   drain (snd (remove (PriorityQueue_new (-)
      \<lparr>comparator = None, heapType = None, initialValues = Some [5, 3, 7, 1, 9, 2 :: int]\<rparr>) 3))
     = [1, 2, 5, 7, 9]"
proof -
  have absent: "v \<notin> set (heap q) \<longrightarrow> remove q v = (False, q)"
    by (simp add: remove_absent)
  have found: "let h = heap q; idx = nat (indexOf h v); g = (butlast h)[idx := last h] in
         indexOf h v = int idx \<and> idx < length h \<and> h ! idx = v \<and> (\<forall>j<idx. h ! j \<noteq> v) \<and>
         fst (remove q v) = True \<and>
         compare (snd (remove q v)) = compare q \<and>
         (idx = length h - 1 \<longrightarrow> heap (snd (remove q v)) = butlast h) \<and>
         (idx < length h - 1 \<longrightarrow>
            g ! idx = last h \<and>
            length (heap (snd (remove q v))) = length h - 1 \<and>
            heap (snd (remove q v)) =
              (if 0 < idx \<and> compare q (g ! idx) (g ! nat (getParentIndex (int idx))) < 0
               then bubbleUp (compare q) g idx
               else bubbleDown (compare q) g idx))"
    if v: "v \<in> set (heap q)"
  proof -
    define h where "h = heap q"
    define idx where "idx = nat (indexOf h v)"
    define g where "g = (butlast h)[idx := last h]"
    note f = indexOf_found[OF v]
    have il: "idx < length h" using f(2) by (simp add: h_def idx_def)
    have 0: "h ! idx = v" using f(3) by (simp add: h_def idx_def)
    have 1: "indexOf h v = int idx" using f(1) by (simp add: h_def idx_def)
    have 2: "\<forall>j<idx. h ! j \<noteq> v" using f(4) by (simp add: h_def idx_def)
    have 3: "fst (remove q v) = True"
    proof (cases "idx = length h - 1")
      case True
      then show ?thesis using remove_last[OF v] by (simp add: h_def idx_def)
    next
      case False
      with il have "idx < length h - 1" by linarith
      then show ?thesis using remove_inner[OF v, of idx] by (simp add: h_def idx_def)
    qed
    have 4: "heap (snd (remove q v)) = butlast h" if "idx = length h - 1"
      using remove_last[OF v] that by (simp add: h_def idx_def)
    have 5: "g ! idx = last h \<and>
            length (heap (snd (remove q v))) = length h - 1 \<and>
            heap (snd (remove q v)) =
              (if 0 < idx \<and> compare q (g ! idx) (g ! nat (getParentIndex (int idx))) < 0
               then bubbleUp (compare q) g idx
               else bubbleDown (compare q) g idx)"
      if inner: "idx < length h - 1"
    proof -
      have gi: "g ! idx = last h" using inner by (simp add: g_def)
      have gp: "g ! nat (getParentIndex (int idx)) = h ! parent idx" if "0 < idx"
      proof -
        have "parent idx < idx" using that by (rule parent_less)
        then show ?thesis using that inner by (simp add: g_def nat_getParentIndex nth_butlast)
      qed
      have "heap (snd (remove q v)) =
              (if 0 < idx \<and> compare q (last h) (h ! parent idx) < 0
               then bubbleUp (compare q) g idx
               else bubbleDown (compare q) g idx)"
        using remove_inner[OF v, of idx] inner by (simp add: h_def idx_def g_def)
      then have e: "heap (snd (remove q v)) =
              (if 0 < idx \<and> compare q (g ! idx) (g ! nat (getParentIndex (int idx))) < 0
               then bubbleUp (compare q) g idx
               else bubbleDown (compare q) g idx)"
        using gi gp by auto
      then have "length (heap (snd (remove q v))) = length h - 1"
        by (simp add: g_def)
      with gi e show ?thesis by blast
    qed
    from 1 il 0 2 3 4 5 show ?thesis
      unfolding Let_def h_def[symmetric] idx_def[symmetric] g_def[symmetric]
      by (simp only: compare_remove) blast
  qed
  have scenario: "drain (snd (remove (PriorityQueue_new (-)
      \<lparr>comparator = None, heapType = None, initialValues = Some [5, 3, 7, 1, 9, 2 :: int]\<rparr>) 3))
     = [1, 2, 5, 7, 9]"
    by code_simp
  from absent found scenario show ?thesis by blast
qed

theorem remove_behaviour_witness:
  "remove (PriorityQueue_new (-)
      \<lparr>comparator = None, heapType = None, initialValues = Some [5, 3, 7, 1, 9, 2 :: int]\<rparr>) 100
     = (False, PriorityQueue_new (-)
      \<lparr>comparator = None, heapType = None, initialValues = Some [5, 3, 7, 1, 9, 2 :: int]\<rparr>)
   \<and> heap (snd (remove (PriorityQueue_new (-)
      \<lparr>comparator = None, heapType = None, initialValues = Some [5, 3, 7, 1, 9, 2 :: int]\<rparr>) 3))
     = [1, 5, 2, 7, 9]
   \<and> heap (snd (remove (PriorityQueue_new (-)
      \<lparr>comparator = None, heapType = None,
        initialValues = Some [1, 10, 2, 11, 12, 3, 4 :: int]\<rparr>) 11))
     = [1, 4, 2, 10, 12, 3]
   \<and> drain (snd (remove (PriorityQueue_new (-)
      \<lparr>comparator = None, heapType = None, initialValues = Some [5, 3, 7, 1, 9, 2 :: int]\<rparr>) 3))
     = [1, 2, 5, 7, 9]"
proof -
  let ?q = "PriorityQueue_new (-)
      \<lparr>comparator = None, heapType = None, initialValues = Some [5, 3, 7, 1, 9, 2 :: int]\<rparr>"
  let ?r = "PriorityQueue_new (-)
      \<lparr>comparator = None, heapType = None,
        initialValues = Some [1, 10, 2, 11, 12, 3, 4 :: int]\<rparr>"
  have hq: "heap ?q = [1, 3, 2, 5, 9, 7]" by code_simp
  have hr: "heap ?r = [1, 10, 2, 11, 12, 3, 4]" by code_simp
  have cq: "compare ?q = (\<lambda>a b. a - b)" by (simp add: compare_new)
  have cr: "compare ?r = (\<lambda>a b. a - b)" by (simp add: compare_new)
  have "100 \<notin> set (heap ?q)" by (simp add: hq)
  with remove_behaviour[of 100 ?q] have 1: "remove ?q 100 = (False, ?q)" by blast
  have down: "bubbleDown (-) [1, 7, 2, 5, 9 :: int] (Suc 0) = [1, 5, 2, 7, 9]"
    by code_simp
  have up: "bubbleUp (-) [1, 10, 2, 4, 12, 3 :: int] 3 = [1, 4, 2, 10, 12, 3]"
    by code_simp
  have "3 \<in> set (heap ?q)" by (simp add: hq)
  with remove_behaviour[of 3 ?q]
  have 2: "heap (snd (remove ?q 3)) = [1, 5, 2, 7, 9]"
    by (simp add: Let_def hq cq indexOf_def getParentIndex_def down)
  have "11 \<in> set (heap ?r)" by (simp add: hr)
  with remove_behaviour[of 11 ?r]
  have 3: "heap (snd (remove ?r 11)) = [1, 4, 2, 10, 12, 3]"
    by (simp add: Let_def hr cr indexOf_def getParentIndex_def up)
  from remove_behaviour[of 3 ?q]
  have 4: "drain (snd (remove ?q 3)) = [1, 2, 5, 7, 9]" by blast
  from 1 2 3 4 show ?thesis by blast
qed

text \<open>
  C7. \<^verbatim>\<open>merge(other)\<close> on two queues: the size afterwards is the sum of the two sizes;
  the other queue is returned as it was; the elements of the other queue are appended in
  the order its iterator yields them, its internal order, and the array is heapified once
  with this queue's comparator; popping until empty yields all elements of both queues,
  sorted by this queue's comparator. When one object is in both roles, \<^verbatim>\<open>q.merge(q)\<close>,
  the call returns only on an empty queue, which it leaves empty; on a non-empty queue it
  does not return.
\<close>

theorem merge_behaviour:
  "size_pq (fst (merge q other)) = size_pq q + size_pq other \<and>
   snd (merge q other) = other \<and>
   compare (fst (merge q other)) = compare q \<and>
   iterate other (iterator other) = heap other \<and>
   heap (fst (merge q other))
     = heapify (compare q) (heap q @ iterate other (iterator other)) \<and>
   mset (drain (fst (merge q other))) = mset (heap q) + mset (heap other) \<and>
   (consistent_comparator (compare q) \<longrightarrow>
      heap_property (compare q) (heap (fst (merge q other))) \<and>
      sorted_wrt (\<lambda>a b. compare q a b \<le> 0) (drain (fst (merge q other)))) \<and>
   (\<forall>key. (\<forall>a b. compare q a b = key a - key b) \<longrightarrow>
      sorted (map key (drain (fst (merge q other))))) \<and>
   (\<forall>key. (\<forall>a b. compare q a b = key b - key a) \<longrightarrow>
      sorted (rev (map key (drain (fst (merge q other)))))) \<and>
   (\<forall>r. merge_self q = Some r \<longrightarrow> r = q \<and> size_pq r = size_pq q + size_pq q) \<and>
   (heap q \<noteq> [] \<longrightarrow> merge_self q = None)"
proof -
  let ?m = "fst (merge q other)"
  have c: "compare ?m = compare q" by (simp add: merge_eq)
  have hp: "consistent_comparator (compare q) \<Longrightarrow> heap_property (compare ?m) (heap ?m)"
    using merge_invariant[of q other] c by simp
  have s: "consistent_comparator (compare q) \<longrightarrow>
      heap_property (compare q) (heap ?m) \<and>
      sorted_wrt (\<lambda>a b. compare q a b \<le> 0) (drain ?m)"
    using sorted_drain[of "compare q" ?m] hp c by simp
  have asc: "sorted (map key (drain ?m))" if k: "\<forall>a b. compare q a b = key a - key b" for key
  proof -
    have "consistent_comparator (compare q)"
      unfolding consistent_comparator_def by (simp add: k)
    with hp k c show ?thesis by (intro drain_ascending) simp_all
  qed
  have desc: "sorted (rev (map key (drain ?m)))" if k: "\<forall>a b. compare q a b = key b - key a" for key
  proof -
    have "consistent_comparator (compare q)"
      unfolding consistent_comparator_def by (simp add: k)
    with hp k c show ?thesis by (intro drain_descending) simp_all
  qed
  have "size_pq ?m = size_pq q + size_pq other" by (simp add: merge_eq size_pq_def)
  moreover have "snd (merge q other) = other" by (simp add: merge_eq)
  moreover have "iterate other (iterator other) = heap other"
    by (simp add: iterate_Fresh iterator_def)
  moreover have "heap ?m = heapify (compare q) (heap q @ iterate other (iterator other))"
    by (simp add: merge_eq iterate_Fresh iterator_def)
  moreover have "mset (drain ?m) = mset (heap q) + mset (heap other)"
    by (simp add: mset_drain merge_eq)
  moreover have "\<forall>r. merge_self q = Some r \<longrightarrow> r = q \<and> size_pq r = size_pq q + size_pq q"
    by (auto dest: merge_self_Some simp: size_pq_def)
  moreover have "heap q \<noteq> [] \<longrightarrow> merge_self q = None"
    by (simp add: merge_self_None)
  ultimately show ?thesis using c s asc desc by blast
qed

theorem merge_behaviour_witness:
  "size_pq (fst (merge
      (PriorityQueue_new (-)
        \<lparr>comparator = None, heapType = None, initialValues = Some [5, 3, 7 :: int]\<rparr>)
      (PriorityQueue_new (-)
        \<lparr>comparator = None, heapType = Some MaxHeap, initialValues = Some [2, 8, 1 :: int]\<rparr>)))
     = 6
   \<and> snd (merge
      (PriorityQueue_new (-)
        \<lparr>comparator = None, heapType = None, initialValues = Some [5, 3, 7 :: int]\<rparr>)
      (PriorityQueue_new (-)
        \<lparr>comparator = None, heapType = Some MaxHeap, initialValues = Some [2, 8, 1 :: int]\<rparr>))
     = PriorityQueue_new (-)
        \<lparr>comparator = None, heapType = Some MaxHeap, initialValues = Some [2, 8, 1 :: int]\<rparr>
   \<and> drain (fst (merge
      (PriorityQueue_new (-)
        \<lparr>comparator = None, heapType = None, initialValues = Some [5, 3, 7 :: int]\<rparr>)
      (PriorityQueue_new (-)
        \<lparr>comparator = None, heapType = Some MaxHeap, initialValues = Some [2, 8, 1 :: int]\<rparr>)))
     = [1, 2, 3, 5, 7, 8]"
proof -
  let ?a = "PriorityQueue_new (-)
        \<lparr>comparator = None, heapType = None, initialValues = Some [5, 3, 7 :: int]\<rparr>"
  let ?b = "PriorityQueue_new (-)
        \<lparr>comparator = None, heapType = Some MaxHeap, initialValues = Some [2, 8, 1 :: int]\<rparr>"
  have ha: "heap ?a = [3, 5, 7]" by code_simp
  have hb: "heap ?b = [8, 2, 1]" by code_simp
  note m = merge_behaviour[of ?a ?b]
  from m have "size_pq (fst (merge ?a ?b)) = size_pq ?a + size_pq ?b" by (elim conjE)
  then have 1: "size_pq (fst (merge ?a ?b)) = 6" by (simp add: size_pq_def ha hb)
  from m have 2: "snd (merge ?a ?b) = ?b" by (elim conjE)
  have 3: "drain (fst (merge ?a ?b)) = [1, 2, 3, 5, 7, 8]" by code_simp
  from 1 2 3 show ?thesis by blast
qed


lemma consistent_key: "consistent_comparator (\<lambda>a b. (key a :: int) - key b)"
  by (simp add: consistent_comparator_def)

lemma tie_keeps_root:
  assumes ok: "consistent_comparator cmp" and hp: "heap_property cmp h"
    and ne: "h \<noteq> []" and tie: "cmp v (h ! 0) = 0"
  shows "bubbleDown cmp (h[0 := v]) 0 = h[0 := v]"
proof -
  from hp have o: "ordered_from cmp h 0" by (simp add: heap_property_iff)
  have below: "\<not> cmp (h ! c) v < 0" if c: "0 < c" "c < length h" "parent c = 0" for c
  proof -
    from tie have "cmp v (h ! 0) \<le> 0" by simp
    moreover have "cmp (h ! 0) (h ! c) \<le> 0" using ordered_fromD[OF o, of c] c by simp
    ultimately have "cmp v (h ! c) \<le> 0" by (rule cmp_trans[OF ok])
    then show ?thesis by (rule cmp_asym[OF ok])
  qed
  have l: "Suc 0 < length h \<Longrightarrow> \<not> cmp (h ! Suc 0) v < 0"
    using below[of "Suc 0"] by (simp add: parent_def)
  have r: "Suc (Suc 0) < length h \<Longrightarrow> \<not> cmp (h ! Suc (Suc 0)) v < 0"
    using below[of "Suc (Suc 0)"] by (simp add: parent_def)
  from l r ne have "bubbleDown_target cmp (h[0 := v]) 0 = 0"
    by (simp add: bubbleDown_target_def getLeftChildIndex_def getRightChildIndex_def Let_def)
  then show ?thesis by (rule bubbleDown_stay)
qed

lemma tie_symmetric:
  assumes ok: "consistent_comparator cmp" and tie: "cmp a b = 0"
  shows "cmp b a = 0"
proof -
  from tie cmp_sign[OF ok, of a b] have "\<not> 0 < cmp b a" by simp
  moreover from tie cmp_sign[OF ok, of b a] have "\<not> cmp b a < 0" by simp
  ultimately show ?thesis by linarith
qed

text \<open>
  C9. A tie in \<^verbatim>\<open>pushPop\<close>: on a non-empty heap, when \<open>compare v top = 0\<close> the call takes
  the \<^verbatim>\<open>replace\<close> path and returns the former top. With the heap property and a
  comparator that obeys its contract, the root slot then holds \<open>v\<close>, every other slot is as
  before, and the returned former top has the rank of \<open>v\<close>.
\<close>

theorem pushPop_tie:
  assumes "heap q \<noteq> []" and "compare q v (heap q ! 0) = 0"
  shows "pushPop q v = replace q v \<and>
         fst (pushPop q v) = Some (heap q ! 0) \<and>
         (consistent_comparator (compare q) \<and> heap_property (compare q) (heap q) \<longrightarrow>
            snd (pushPop q v) = q\<lparr>heap := (heap q)[0 := v]\<rparr> \<and>
            heap (snd (pushPop q v)) ! 0 = v \<and>
            compare q (heap q ! 0) v = 0)"
proof -
  from assms have e: "pushPop q v = replace q v" by (simp add: pushPop_def isEmpty_def)
  from assms(1) have r: "replace q v
      = (Some (heap q ! 0), q\<lparr>heap := bubbleDown (compare q) ((heap q)[0 := v]) 0\<rparr>)"
    by (simp add: replace_def isEmpty_def Let_def)
  have f: "fst (pushPop q v) = Some (heap q ! 0)" by (simp add: e r)
  have cond: "snd (pushPop q v) = q\<lparr>heap := (heap q)[0 := v]\<rparr> \<and>
        heap (snd (pushPop q v)) ! 0 = v \<and> compare q (heap q ! 0) v = 0"
    if "consistent_comparator (compare q)" "heap_property (compare q) (heap q)"
  proof -
    have k: "bubbleDown (compare q) ((heap q)[0 := v]) 0 = (heap q)[0 := v]"
      using that assms by (rule tie_keeps_root)
    have "snd (pushPop q v) = q\<lparr>heap := (heap q)[0 := v]\<rparr>" by (simp add: e r k)
    moreover have "heap (snd (pushPop q v)) ! 0 = v" using assms(1) by (simp add: e r k)
    moreover have "compare q (heap q ! 0) v = 0"
      using that(1) assms(2) by (rule tie_symmetric)
    ultimately show ?thesis by blast
  qed
  from e f cond show ?thesis by blast
qed

theorem pushPop_tie_witness:
  "pushPop (PriorityQueue_new (-)
      \<lparr>comparator = Some (\<lambda>a b. a div 10 - b div 10), heapType = None,
        initialValues = Some [25, 12, 31 :: int]\<rparr>) 17
   = (Some 12,
      (PriorityQueue_new (-)
        \<lparr>comparator = Some (\<lambda>a b. a div 10 - b div 10), heapType = None,
          initialValues = Some [25, 12, 31 :: int]\<rparr>)\<lparr>heap := [17, 25, 31]\<rparr>)"
proof -
  let ?q = "PriorityQueue_new (-)
      \<lparr>comparator = Some (\<lambda>a b. a div 10 - b div 10), heapType = None,
        initialValues = Some [25, 12, 31 :: int]\<rparr>"
  have h: "heap ?q = [12, 25, 31]" by code_simp
  have c: "compare ?q = (\<lambda>a b. a div 10 - b div 10)" by (simp add: compare_new)
  have ok: "consistent_comparator (compare ?q)" unfolding c by (rule consistent_key)
  have hp: "heap_property (compare ?q) (heap ?q)" using ok by (rule new_invariant)
  have ne: "heap ?q \<noteq> []" by (simp add: h)
  have tie: "compare ?q 17 (heap ?q ! 0) = 0" by (simp add: h c)
  from pushPop_tie[OF ne tie] ok hp
  have "fst (pushPop ?q 17) = Some (heap ?q ! 0)"
    and "snd (pushPop ?q 17) = ?q\<lparr>heap := (heap ?q)[0 := 17]\<rparr>" by blast+
  then show ?thesis by (simp add: h prod_eq_iff)
qed

text \<open>
  C10. Removing the root: when the first match of \<^verbatim>\<open>remove(value)\<close> is at index 0 of a
  heap of at least two elements, \<^verbatim>\<open>getParentIndex\<close> gives \<open>-1\<close>, so the test on the parent
  fails and the pass is \<^verbatim>\<open>bubbleDown\<close> from the root, on the array with the last element
  moved into slot 0; the heap property holds afterwards.
\<close>

theorem remove_root:
  assumes "indexOf (heap q) v = 0" and "2 \<le> length (heap q)"
  shows "getParentIndex (indexOf (heap q) v) = - 1 \<and>
         remove q v = (True,
            q\<lparr>heap := bubbleDown (compare q) ((butlast (heap q))[0 := last (heap q)]) 0\<rparr>) \<and>
         (consistent_comparator (compare q) \<and> heap_property (compare q) (heap q) \<longrightarrow>
            heap_property (compare q) (heap (snd (remove q v))))"
proof -
  have p: "getParentIndex (indexOf (heap q) v) = - 1"
    using assms(1) by (simp add: getParentIndex_def)
  have "indexOf (heap q) v \<noteq> int (length (heap q)) - 1" using assms by simp
  with assms(1) p have r: "remove q v = (True,
      q\<lparr>heap := bubbleDown (compare q) ((butlast (heap q))[0 := last (heap q)]) 0\<rparr>)"
    by (simp add: remove_def Let_def)
  have "heap_property (compare q) (heap (snd (remove q v)))"
    if "consistent_comparator (compare q)" "heap_property (compare q) (heap q)"
    using that by (rule remove_invariant)
  with p r show ?thesis by blast
qed

theorem remove_root_witness:
  "getParentIndex 0 = - 1
   \<and> remove (PriorityQueue_new (-)
      \<lparr>comparator = None, heapType = None, initialValues = Some [5, 3, 7, 1, 9, 2 :: int]\<rparr>) 1
     = (True, (PriorityQueue_new (-)
      \<lparr>comparator = None, heapType = None, initialValues = Some [5, 3, 7, 1, 9, 2 :: int]\<rparr>)
        \<lparr>heap := [2, 3, 7, 5, 9]\<rparr>)
   \<and> heap_property (-) [2, 3, 7, 5, 9 :: int]"
proof -
  let ?q = "PriorityQueue_new (-)
      \<lparr>comparator = None, heapType = None, initialValues = Some [5, 3, 7, 1, 9, 2 :: int]\<rparr>"
  have h: "heap ?q = [1, 3, 2, 5, 9, 7]" by code_simp
  have c: "compare ?q = (-)" by (simp add: compare_new)
  have ok: "consistent_comparator (compare ?q)" unfolding c using consistent_minus by simp
  have hp: "heap_property (compare ?q) (heap ?q)" using ok by (rule new_invariant)
  have i: "indexOf (heap ?q) 1 = 0" by (simp add: h indexOf_def)
  have n: "2 \<le> length (heap ?q)" by (simp add: h)
  have d: "bubbleDown (-) [7, 3, 2, 5, 9 :: int] 0 = [2, 3, 7, 5, 9]" by code_simp
  from remove_root[OF i n] ok hp
  have 1: "getParentIndex (indexOf (heap ?q) 1) = - 1"
    and 2: "remove ?q 1 = (True,
        ?q\<lparr>heap := bubbleDown (compare ?q) ((butlast (heap ?q))[0 := last (heap ?q)]) 0\<rparr>)"
    and 3: "heap_property (compare ?q) (heap (snd (remove ?q 1)))" by blast+
  from 1 i have 1: "getParentIndex 0 = - 1" by simp
  from 2 have 2: "remove ?q 1 = (True, ?q\<lparr>heap := [2, 3, 7, 5, 9]\<rparr>)"
    by (simp add: h c d)
  from 3 2 have 3: "heap_property (-) [2, 3, 7, 5, 9 :: int]" by (simp add: c)
  from 1 2 3 show ?thesis by blast
qed

subsection \<open>Iterators across calls\<close>

lemma perform_Fresh [simp]: "snd (perform c (q, Fresh)) = Fresh"
  by (cases c) simp_all

lemma perform_all_Fresh: "snd (perform_all cs (q, Fresh)) = Fresh"
proof (induction cs arbitrary: q)
  case Nil
  then show ?case by simp
next
  case (Cons c cs)
  have "perform c (q, Fresh) = (fst (perform c (q, Fresh)), Fresh)"
    by (simp add: prod_eq_iff)
  with Cons.IH[of "fst (perform c (q, Fresh))"] show ?case by simp
qed

lemma perform_Live_in_place:
  "c \<noteq> CallClear \<Longrightarrow> c \<noteq> CallToSortedArray \<Longrightarrow> snd (perform c (q, Live i)) = Live i"
  by (cases c) simp_all

lemma perform_Live_clear: "perform CallClear (q, Live i) = (clear q, Detached (heap q) i)"
  by simp

lemma perform_Live_toSortedArray:
  "perform CallToSortedArray (q, Live i) = (q, Detached [] i)"
  by (simp add: toSortedArray_snd toSortedArray_loop_snd)

lemma perform_Detached [simp]: "snd (perform c (q, Detached a i)) = Detached a i"
  by (cases c) simp_all

lemma perform_all_Detached: "snd (perform_all cs (q, Detached a i)) = Detached a i"
proof (induction cs arbitrary: q)
  case Nil
  then show ?case by simp
next
  case (Cons c cs)
  have "perform c (q, Detached a i) = (fst (perform c (q, Detached a i)), Detached a i)"
    by (simp add: prod_eq_iff)
  with Cons.IH[of "fst (perform c (q, Detached a i))"] show ?case by simp
qed

lemma perform_all_Live_in_place:
  "\<forall>c \<in> set cs. c \<noteq> CallClear \<and> c \<noteq> CallToSortedArray
   \<Longrightarrow> snd (perform_all cs (q, Live i)) = Live i"
proof (induction cs arbitrary: q)
  case Nil
  then show ?case by simp
next
  case (Cons c cs)
  then have "snd (perform c (q, Live i)) = Live i" by (simp add: perform_Live_in_place)
  then have "perform c (q, Live i) = (fst (perform c (q, Live i)), Live i)"
    by (simp add: prod_eq_iff)
  with Cons.IH[of "fst (perform c (q, Live i))"] Cons.prems show ?case by simp
qed

text \<open>
  C8, as the code has it. A pass over a queue that is not changed meanwhile yields the
  backing array, slot by slot, in its internal order. A pass is not a snapshot taken when
  the iterator is created. The iterator reads nothing before its first element is asked
  for: after any calls made in between, the pass yields the array as it is when the pass
  starts. A started iterator stands at a position of the array object it started on.
  After calls that write the array in place (\<^verbatim>\<open>push\<close>, \<^verbatim>\<open>pop\<close>, \<^verbatim>\<open>remove\<close>,
  \<^verbatim>\<open>replace\<close>, \<^verbatim>\<open>pushPop\<close>, \<^verbatim>\<open>merge\<close>) the rest of the pass is the array as it is then,
  from that position on. \<^verbatim>\<open>clear\<close> leaves the iterator on the old array as it was, and
  \<^verbatim>\<open>toSortedArray\<close> leaves it on the old array emptied; no later call changes what such
  an iterator yields.
\<close>

theorem enumeration_live_view:
  "iterate q (iterator q) = heap q \<and>
   iterate (fst (perform_all cs (q, iterator q))) (snd (perform_all cs (q, iterator q)))
     = heap (fst (perform_all cs (q, iterator q))) \<and>
   (heap q \<noteq> [] \<longrightarrow> iterator_next q (iterator q) = (Some (heap q ! 0), Live 1)) \<and>
   (i < length (heap q) \<longrightarrow> iterator_next q (Live i) = (Some (heap q ! i), Live (i + 1))) \<and>
   iterate q (Live i) = drop i (heap q) \<and>
   ((\<forall>c \<in> set cs. c \<noteq> CallClear \<and> c \<noteq> CallToSortedArray) \<longrightarrow>
      iterate (fst (perform_all cs (q, Live i))) (snd (perform_all cs (q, Live i)))
        = drop i (heap (fst (perform_all cs (q, Live i))))) \<and>
   perform CallClear (q, Live i) = (clear q, Detached (heap q) i) \<and>
   perform CallToSortedArray (q, Live i) = (q, Detached [] i) \<and>
   iterate (fst (perform_all cs (q, Detached a i))) (snd (perform_all cs (q, Detached a i)))
     = drop i a"
proof -
  have 1: "iterate q (iterator q) = heap q" by (simp add: iterator_def iterate_Fresh)
  have 2: "iterate (fst (perform_all cs (q, iterator q))) (snd (perform_all cs (q, iterator q)))
     = heap (fst (perform_all cs (q, iterator q)))"
    by (simp add: iterator_def perform_all_Fresh iterate_Fresh)
  have 3: "heap q \<noteq> [] \<longrightarrow> iterator_next q (iterator q) = (Some (heap q ! 0), Live 1)"
    by (simp add: iterator_def)
  have 4: "i < length (heap q) \<longrightarrow> iterator_next q (Live i) = (Some (heap q ! i), Live (i + 1))"
    by simp
  have 5: "iterate q (Live i) = drop i (heap q)" by (rule iterate_Live)
  have 6: "(\<forall>c \<in> set cs. c \<noteq> CallClear \<and> c \<noteq> CallToSortedArray) \<longrightarrow>
      iterate (fst (perform_all cs (q, Live i))) (snd (perform_all cs (q, Live i)))
        = drop i (heap (fst (perform_all cs (q, Live i))))"
    by (simp add: perform_all_Live_in_place iterate_Live)
  have 7: "perform CallClear (q, Live i) = (clear q, Detached (heap q) i)"
    by (rule perform_Live_clear)
  have 8: "perform CallToSortedArray (q, Live i) = (q, Detached [] i)"
    by (rule perform_Live_toSortedArray)
  have 9: "iterate (fst (perform_all cs (q, Detached a i)))
      (snd (perform_all cs (q, Detached a i))) = drop i a"
    by (simp add: perform_all_Detached iterate_Detached)
  from 1 2 3 4 5 6 7 8 9 show ?thesis by blast
qed

theorem enumeration_live_view_witness:
  "iterate (PriorityQueue_new (-)
      \<lparr>comparator = None, heapType = None, initialValues = Some [5, 3, 7, 1, 9, 2 :: int]\<rparr>)
     (iterator (PriorityQueue_new (-)
      \<lparr>comparator = None, heapType = None, initialValues = Some [5, 3, 7, 1, 9, 2 :: int]\<rparr>))
     = [1, 3, 2, 5, 9, 7]
   \<and> iterate
       (fst (perform_all [CallPush 0] (PriorityQueue_new (-)
          \<lparr>comparator = None, heapType = None, initialValues = Some [5, 3, 7, 1, 9, 2 :: int]\<rparr>,
          Live 2)))
       (snd (perform_all [CallPush 0] (PriorityQueue_new (-)
          \<lparr>comparator = None, heapType = None, initialValues = Some [5, 3, 7, 1, 9, 2 :: int]\<rparr>,
          Live 2)))
     = [1, 5, 9, 7, 2]
   \<and> iterate
       (fst (perform_all [CallClear, CallPush 0] (PriorityQueue_new (-)
          \<lparr>comparator = None, heapType = None, initialValues = Some [5, 3, 7, 1, 9, 2 :: int]\<rparr>,
          Live 2)))
       (snd (perform_all [CallClear, CallPush 0] (PriorityQueue_new (-)
          \<lparr>comparator = None, heapType = None, initialValues = Some [5, 3, 7, 1, 9, 2 :: int]\<rparr>,
          Live 2)))
     = [2, 5, 9, 7]
   \<and> iterate
       (fst (perform_all [CallToSortedArray, CallPush 0] (PriorityQueue_new (-)
          \<lparr>comparator = None, heapType = None, initialValues = Some [5, 3, 7, 1, 9, 2 :: int]\<rparr>,
          Live 2)))
       (snd (perform_all [CallToSortedArray, CallPush 0] (PriorityQueue_new (-)
          \<lparr>comparator = None, heapType = None, initialValues = Some [5, 3, 7, 1, 9, 2 :: int]\<rparr>,
          Live 2)))
     = []"
proof -
  let ?q = "PriorityQueue_new (-)
      \<lparr>comparator = None, heapType = None, initialValues = Some [5, 3, 7, 1, 9, 2 :: int]\<rparr>"
  have h: "heap ?q = [1, 3, 2, 5, 9, 7]" by code_simp
  have p: "heap (fst (perform_all [CallPush 0] (?q, Live 2))) = [0, 3, 1, 5, 9, 7, 2]"
    by code_simp
  have c: "\<forall>c \<in> set [CallPush (0 :: int)]. c \<noteq> CallClear \<and> c \<noteq> CallToSortedArray" by simp
  note t = enumeration_live_view[of ?q "[CallPush 0]" 2 "[]"]
  from t have "iterate ?q (iterator ?q) = heap ?q" by (elim conjE)
  with h have 1: "iterate ?q (iterator ?q) = [1, 3, 2, 5, 9, 7]" by simp
  from t have "(\<forall>c \<in> set [CallPush (0 :: int)]. c \<noteq> CallClear \<and> c \<noteq> CallToSortedArray) \<longrightarrow>
      iterate (fst (perform_all [CallPush 0] (?q, Live 2)))
        (snd (perform_all [CallPush 0] (?q, Live 2)))
        = drop 2 (heap (fst (perform_all [CallPush 0] (?q, Live 2))))" by (elim conjE)
  with c have "iterate (fst (perform_all [CallPush 0] (?q, Live 2)))
        (snd (perform_all [CallPush 0] (?q, Live 2)))
        = drop 2 (heap (fst (perform_all [CallPush 0] (?q, Live 2))))" by (rule rev_mp)
  then have 2: "iterate (fst (perform_all [CallPush 0] (?q, Live 2)))
        (snd (perform_all [CallPush 0] (?q, Live 2))) = [1, 5, 9, 7, 2]"
    by (simp only: p) simp
  from t have cl: "perform CallClear (?q, Live 2) = (clear ?q, Detached (heap ?q) 2)"
    by (elim conjE)
  from t have ts: "perform CallToSortedArray (?q, Live 2) = (?q, Detached [] 2)"
    by (elim conjE)
  from enumeration_live_view[of "clear ?q" "[CallPush 0]" 2 "heap ?q"]
  have "iterate (fst (perform_all [CallPush 0] (clear ?q, Detached (heap ?q) 2)))
      (snd (perform_all [CallPush 0] (clear ?q, Detached (heap ?q) 2))) = drop 2 (heap ?q)"
    by (elim conjE)
  then have 3: "iterate (fst (perform_all [CallClear, CallPush 0] (?q, Live 2)))
      (snd (perform_all [CallClear, CallPush 0] (?q, Live 2))) = [2, 5, 9, 7]"
    using cl unfolding h by (simp del: perform.simps)
  from enumeration_live_view[of ?q "[CallPush 0]" 2 "[]"]
  have "iterate (fst (perform_all [CallPush 0] (?q, Detached [] 2)))
      (snd (perform_all [CallPush 0] (?q, Detached [] 2))) = drop 2 []"
    by (elim conjE)
  then have 4: "iterate (fst (perform_all [CallToSortedArray, CallPush 0] (?q, Live 2)))
      (snd (perform_all [CallToSortedArray, CallPush 0] (?q, Live 2))) = []"
    using ts by (simp del: perform.simps)
  from 1 2 3 4 show ?thesis by blast
qed

text \<open>
  The claim of a snapshot fails on the min queue built from 1, 2, whose array is
  \<open>[1, 2]\<close>. An iterator is created and then 0 is pushed: the pass yields 0, 2, 1. When
  the first element, 1, is taken before the push, the rest of the pass yields 2, 1.
\<close>

theorem enumeration_snapshot_counterexample:
  "heap (PriorityQueue_new (-)
      \<lparr>comparator = None, heapType = None, initialValues = Some [1, 2 :: int]\<rparr>) = [1, 2]
   \<and> iterate
       (fst (perform (CallPush 0) (PriorityQueue_new (-)
          \<lparr>comparator = None, heapType = None, initialValues = Some [1, 2 :: int]\<rparr>,
          iterator (PriorityQueue_new (-)
          \<lparr>comparator = None, heapType = None, initialValues = Some [1, 2 :: int]\<rparr>))))
       (snd (perform (CallPush 0) (PriorityQueue_new (-)
          \<lparr>comparator = None, heapType = None, initialValues = Some [1, 2 :: int]\<rparr>,
          iterator (PriorityQueue_new (-)
          \<lparr>comparator = None, heapType = None, initialValues = Some [1, 2 :: int]\<rparr>))))
     = [0, 2, 1]
   \<and> iterate
       (fst (perform (CallPush 0) (PriorityQueue_new (-)
          \<lparr>comparator = None, heapType = None, initialValues = Some [1, 2 :: int]\<rparr>,
          iterator (PriorityQueue_new (-)
          \<lparr>comparator = None, heapType = None, initialValues = Some [1, 2 :: int]\<rparr>))))
       (snd (perform (CallPush 0) (PriorityQueue_new (-)
          \<lparr>comparator = None, heapType = None, initialValues = Some [1, 2 :: int]\<rparr>,
          iterator (PriorityQueue_new (-)
          \<lparr>comparator = None, heapType = None, initialValues = Some [1, 2 :: int]\<rparr>))))
     \<noteq> heap (PriorityQueue_new (-)
          \<lparr>comparator = None, heapType = None, initialValues = Some [1, 2 :: int]\<rparr>)
   \<and> iterator_next
       (PriorityQueue_new (-)
          \<lparr>comparator = None, heapType = None, initialValues = Some [1, 2 :: int]\<rparr>)
       (iterator (PriorityQueue_new (-)
          \<lparr>comparator = None, heapType = None, initialValues = Some [1, 2 :: int]\<rparr>))
     = (Some 1, Live 1)
   \<and> iterate
       (fst (perform (CallPush 0) (PriorityQueue_new (-)
          \<lparr>comparator = None, heapType = None, initialValues = Some [1, 2 :: int]\<rparr>, Live 1)))
       (snd (perform (CallPush 0) (PriorityQueue_new (-)
          \<lparr>comparator = None, heapType = None, initialValues = Some [1, 2 :: int]\<rparr>, Live 1)))
     = [2, 1]"
proof -
  let ?q = "PriorityQueue_new (-)
      \<lparr>comparator = None, heapType = None, initialValues = Some [1, 2 :: int]\<rparr>"
  have 1: "heap ?q = [1, 2]" by code_simp
  have 2: "iterate (fst (perform (CallPush 0) (?q, iterator ?q)))
      (snd (perform (CallPush 0) (?q, iterator ?q))) = [0, 2, 1]" by code_simp
  have 3: "iterator_next ?q (iterator ?q) = (Some 1, Live 1)" by code_simp
  have 4: "iterate (fst (perform (CallPush 0) (?q, Live 1)))
      (snd (perform (CallPush 0) (?q, Live 1))) = [2, 1]" by code_simp
  from 1 2 have 0: "iterate (fst (perform (CallPush 0) (?q, iterator ?q)))
      (snd (perform (CallPush 0) (?q, iterator ?q))) \<noteq> heap ?q" by simp
  from 0 1 2 3 4 show ?thesis by blast
qed

end
